theory Spec2Isabelle
  imports Main "HOL-Library.Word"
begin

section \<open>Configuration and runtime faults\<close>

text \<open>
  The fields of \<^verbatim>\<open>xconf.Config\<close> that the dispatch core reads. \<^verbatim>\<open>MaxConn\<close> is a Go
  \<^verbatim>\<open>int\<close>, \<^verbatim>\<open>WorkerPoolSize\<close> a \<^verbatim>\<open>uint32\<close>, \<^verbatim>\<open>WorkerMode\<close> a string that is compared
  with the constant \<^verbatim>\<open>"Bind"\<close>. The process-wide \<^verbatim>\<open>xconf.GlobalObject\<close> is passed to every
  function that reads it, and returned by the one function that writes it.
\<close>

record Config =
  MaxConn :: int
  WorkerPoolSize :: "32 word"
  WorkerMode :: string
  RouterSlicesMode :: bool

definition WorkerModeHash :: string where
  "WorkerModeHash = ''Hash''"

definition WorkerModeBind :: string where
  "WorkerModeBind = ''Bind''"

text \<open>
  A Go panic is a value: the two registration panics of the routers, the panic of a
  group registration outside the group's range, the runtime's own panics (an index out
  of range, a nil dereference, a write to a nil map) and a panic raised by user code.
\<close>

datatype panic =
    RepeatedApi "32 word"
  | GroupOutOfRange "32 word"
  | IndexOutOfRange int nat
  | SliceBoundsOutOfRange
  | NilPointerDereference
  | NilMapAssignment
  | UserPanic string

section \<open>The request and the handlers that run on it\<close>

text \<open>
  User code (a slices handler, or one of the three methods of a classic router) is
  modelled as the sequence of statements it runs on the \<^verbatim>\<open>IRequest\<close> it is given: the
  calls \<^verbatim>\<open>RouterSlicesNext()\<close>, \<^verbatim>\<open>Abort()\<close>, \<^verbatim>\<open>Goto(step)\<close>, \<^verbatim>\<open>Call()\<close> and
  \<^verbatim>\<open>SetResponse(v)\<close>, the early return \<^verbatim>\<open>if req.GetResponse() != nil { return }\<close>, a
  line printed to the output, or a panic. \<^verbatim>\<open>BindRouter\<close> and \<^verbatim>\<open>BindRouterSlices\<close> are
  called by the dispatcher only.
\<close>

datatype stmt =
    CallRouterSlicesNext
  | CallAbort
  | CallGoto int
  | CallCall
  | CallSetResponse string
  | ReturnIfResponse
  | Println string
  | Panic string

type_synonym RouterHandler = "stmt list"

text \<open>\<^verbatim>\<open>IRouter\<close>: the three methods of a classic router.\<close>

record IRouter =
  PreHandle_m :: "stmt list"
  Handle_m :: "stmt list"
  PostHandle_m :: "stmt list"

text \<open>\<^verbatim>\<open>type HandleStep int\<close> with its four named values.\<close>

type_synonym HandleStep = int

definition PreHandle :: HandleStep where "PreHandle = 0"
definition Handle :: HandleStep where "Handle = 1"
definition PostHandle :: HandleStep where "PostHandle = 2"
definition HandleOver :: HandleStep where "HandleOver = 3"


text \<open>
  Modelled from the spec: the connection and message types (\<^verbatim>\<open>connection.go\<close> and
  \<^verbatim>\<open>message.go\<close> are not among the sources). A connection has a 64-bit connection-id
  and the worker-id it was assigned at acceptance; a message has a 32-bit unsigned
  message-id and a payload byte sequence.
\<close>

record IConnection =
  connID :: "64 word"
  workerID :: "32 word"

record Message =
  id_m :: "32 word"
  data_m :: "8 word list"

text \<open>
  \<^verbatim>\<open>Request\<close>. A nil \<^verbatim>\<open>router\<close> is \<open>None\<close>, a nil \<^verbatim>\<open>handlers\<close> slice is the empty list,
  \<^verbatim>\<open>index\<close> is Go's \<^verbatim>\<open>int8\<close>: an 8-bit word read through \<open>sint\<close>. The response
  slot \<^verbatim>\<open>icResp\<close> is an \<^verbatim>\<open>interface{}\<close>: \<open>None\<close> when nil, otherwise the value, kept as a
  string. The lock plays no part in a dispatch by one worker and is left out.
\<close>

record Request =
  conn :: IConnection
  msg :: Message
  router :: "IRouter option"
  steps :: HandleStep
  needNext :: bool
  icResp :: "string option"
  handlers :: "RouterHandler list"
  index :: "8 word"

definition NewRequest :: "IConnection \<Rightarrow> Message \<Rightarrow> Request" where
  "NewRequest c m =
     \<lparr>conn = c, msg = m, router = None, steps = PreHandle, needNext = True,
      icResp = None, handlers = [], index = - 1\<rparr>"

definition GetResponse :: "Request \<Rightarrow> string option" where
  "GetResponse r = icResp r"

definition SetResponse :: "string option \<Rightarrow> Request \<Rightarrow> Request" where
  "SetResponse response r = r\<lparr>icResp := response\<rparr>"

definition GetMsgID :: "Request \<Rightarrow> 32 word" where
  "GetMsgID r = id_m (msg r)"

definition BindRouter :: "IRouter option \<Rightarrow> Request \<Rightarrow> Request" where
  "BindRouter rt r = r\<lparr>router := rt\<rparr>"

definition BindRouterSlices :: "RouterHandler list \<Rightarrow> Request \<Rightarrow> Request" where
  "BindRouterSlices hs r = r\<lparr>handlers := hs\<rparr>"

definition next_step :: "Request \<Rightarrow> Request" where
  "next_step r =
     (if needNext r = False then r\<lparr>needNext := True\<rparr>
      else r\<lparr>steps := steps r + 1\<rparr>)"

definition Goto :: "HandleStep \<Rightarrow> Request \<Rightarrow> Request" where
  "Goto step r = r\<lparr>steps := step, needNext := False\<rparr>"

text \<open>\<^verbatim>\<open>int8(len(r.handlers))\<close> keeps the low eight bits of the length.\<close>

definition Abort :: "Config \<Rightarrow> Request \<Rightarrow> Request" where
  "Abort cfg r =
     (if RouterSlicesMode cfg then r\<lparr>index := word_of_nat (length (handlers r))\<rparr>
      else r\<lparr>steps := HandleOver\<rparr>)"

subsection \<open>Running user code\<close>

text \<open>
  What a run leaves behind for an observer: which handler was entered, what user code
  printed, and the two error lines of the dispatcher (a recovered panic with the
  function's name and the worker-id, and a message-id without a route).
\<close>

datatype callee = RouterPreHandle | RouterHandle | RouterPostHandle | SliceHandler nat

datatype event =
    Invoked callee
  | Printed string
  | AbortCalled
  | ErrorF_panic string int panic
  | ErrorF_notFound "32 word"

text \<open>What an observer reads off the events: the handlers entered, and the lines printed.\<close>

fun invoked :: "event list \<Rightarrow> callee list" where
  "invoked [] = []"
| "invoked (Invoked c # evs) = c # invoked evs"
| "invoked (ev # evs) = invoked evs"

fun printed :: "event list \<Rightarrow> string list" where
  "printed [] = []"
| "printed (Printed s # evs) = s # printed evs"
| "printed (ev # evs) = printed evs"

text \<open>
  Control leaves a function normally, by a panic that unwinds the stack, or (in the
  model only) because the fuel that bounds the run is used up.
\<close>

datatype flow = Normal | Panicking panic | OutOfFuel

record Exec =
  req :: Request
  events :: "event list"
  flow :: flow

definition emit :: "event \<Rightarrow> Exec \<Rightarrow> Exec" where
  "emit ev e = e\<lparr>events := events e @ [ev]\<rparr>"

definition index_inc :: "Exec \<Rightarrow> Exec" where
  "index_inc e = e\<lparr>req := (req e)\<lparr>index := index (req e) + 1\<rparr>\<rparr>"

text \<open>
  The statements that do not run further handlers. The two calls that do, and the
  early return, are the business of \<open>call_handler\<close> below.
\<close>

fun request_call :: "Config \<Rightarrow> stmt \<Rightarrow> Exec \<Rightarrow> Exec" where
  "request_call cfg CallAbort e = emit AbortCalled (e\<lparr>req := Abort cfg (req e)\<rparr>)"
| "request_call cfg (CallGoto step) e = e\<lparr>req := Goto step (req e)\<rparr>"
| "request_call cfg (CallSetResponse v) e = e\<lparr>req := SetResponse (Some v) (req e)\<rparr>"
| "request_call cfg (Println s) e = emit (Printed s) e"
| "request_call cfg (Panic v) e = e\<lparr>flow := Panicking (UserPanic v)\<rparr>"
| "request_call cfg CallRouterSlicesNext e = e"
| "request_call cfg CallCall e = e"
| "request_call cfg ReturnIfResponse e = e"

text \<open>
  \<^verbatim>\<open>Request.RouterSlicesNext\<close>: increment the index, then call
  \<^verbatim>\<open>r.handlers[r.index](r)\<close> and increment again while the index is below
  \<^verbatim>\<open>int8(len(r.handlers))\<close>. Indexing the slice with a negative index, or one beyond
  its length, panics.

  \<^verbatim>\<open>Request.Call\<close>: nothing without a router; otherwise the loop calls the method the
  cursor names and then \<^verbatim>\<open>next()\<close>, until the cursor reaches \<^verbatim>\<open>HandleOver\<close>, and the
  cursor is set back to \<^verbatim>\<open>PreHandle\<close>.

  The code called may itself call \<^verbatim>\<open>RouterSlicesNext\<close> or \<^verbatim>\<open>Call\<close>, so the two loops,
  \<open>Call\<close> and the body of a handler are mutually recursive. A \<^verbatim>\<open>Goto\<close> or a nested
  \<^verbatim>\<open>Call\<close> can keep a loop going for ever, so the loops take fuel (the first argument):
  one unit for each test of a loop condition.
\<close>

fun RouterSlicesNext_loop :: "nat \<Rightarrow> Config \<Rightarrow> Exec \<Rightarrow> Exec"
  and Call_loop :: "nat \<Rightarrow> Config \<Rightarrow> Exec \<Rightarrow> Exec"
  and Call :: "nat \<Rightarrow> Config \<Rightarrow> Exec \<Rightarrow> Exec"
  and call_handler :: "nat \<Rightarrow> Config \<Rightarrow> stmt list \<Rightarrow> Exec \<Rightarrow> Exec"
where
  "RouterSlicesNext_loop 0 cfg e = e\<lparr>flow := OutOfFuel\<rparr>"
| "RouterSlicesNext_loop (Suc n) cfg e =
     (let i = sint (index (req e)); hs = handlers (req e) in
      if i < sint (word_of_nat (length hs) :: 8 word) then
        (if i < 0 \<or> int (length hs) \<le> i then e\<lparr>flow := Panicking (IndexOutOfRange i (length hs))\<rparr>
         else
           let e1 = call_handler n cfg (hs ! nat i) (emit (Invoked (SliceHandler (nat i))) e) in
           if flow e1 \<noteq> Normal then e1 else RouterSlicesNext_loop n cfg (index_inc e1))
      else e)"
| "Call_loop 0 cfg e = e\<lparr>flow := OutOfFuel\<rparr>"
| "Call_loop (Suc n) cfg e =
     (if steps (req e) < HandleOver then
        (case router (req e) of
           None \<Rightarrow> e\<lparr>flow := Panicking NilPointerDereference\<rparr>
         | Some rt \<Rightarrow>
             let e1 =
               (if steps (req e) = PreHandle then
                  call_handler n cfg (PreHandle_m rt) (emit (Invoked RouterPreHandle) e)
                else if steps (req e) = Handle then
                  call_handler n cfg (Handle_m rt) (emit (Invoked RouterHandle) e)
                else if steps (req e) = PostHandle then
                  call_handler n cfg (PostHandle_m rt) (emit (Invoked RouterPostHandle) e)
                else e)
             in if flow e1 \<noteq> Normal then e1
                else Call_loop n cfg (e1\<lparr>req := next_step (req e1)\<rparr>))
      else e)"
| "Call n cfg e =
     (case router (req e) of
        None \<Rightarrow> e
      | Some rt \<Rightarrow>
          let e1 = Call_loop n cfg e in
          if flow e1 \<noteq> Normal then e1
          else e1\<lparr>req := (req e1)\<lparr>steps := PreHandle\<rparr>\<rparr>)"
| "call_handler n cfg [] e = e"
| "call_handler n cfg (s # ss) e =
     (if s = ReturnIfResponse \<and> GetResponse (req e) \<noteq> None then e
      else
        let e1 = (if s = CallRouterSlicesNext then RouterSlicesNext_loop n cfg (index_inc e)
                  else if s = CallCall then Call n cfg e
                  else request_call cfg s e)
        in if flow e1 \<noteq> Normal then e1 else call_handler n cfg ss e1)"

declare Call.simps [simp del]

definition RouterSlicesNext :: "nat \<Rightarrow> Config \<Rightarrow> Exec \<Rightarrow> Exec" where
  "RouterSlicesNext n cfg e = RouterSlicesNext_loop n cfg (index_inc e)"

text \<open>
  What the claims say about user code: a body that calls neither \<^verbatim>\<open>Abort\<close> nor
  \<^verbatim>\<open>Goto\<close>, a body that does not call \<^verbatim>\<open>Call\<close>, and a body that only prints; the lines
  a body prints; the method of the router that belongs to a step.
\<close>

definition no_jump :: "stmt list \<Rightarrow> bool" where
  "no_jump ss = (\<forall>s \<in> set ss. s \<noteq> CallAbort \<and> (\<forall>k. s \<noteq> CallGoto k))"


definition no_reentry :: "stmt list \<Rightarrow> bool" where
  "no_reentry ss = (CallCall \<notin> set ss)"


definition only_prints :: "stmt list \<Rightarrow> bool" where
  "only_prints ss = (\<forall>s \<in> set ss. \<exists>str. s = Println str)"



text \<open>A run only adds events, and leaves the router of the request in place.\<close>

definition grows :: "Exec \<Rightarrow> Exec \<Rightarrow> bool" where
  "grows e e' \<longleftrightarrow> router (req e') = router (req e) \<and> (\<exists>evs. events e' = events e @ evs)"

fun lines_of :: "stmt list \<Rightarrow> string list" where
  "lines_of [] = []"
| "lines_of (Println s # ss) = s # lines_of ss"
| "lines_of (s # ss) = lines_of ss"


text \<open>
  What an observer reads off a slices run: the indices of the handlers entered, and the
  events that follow the first call of \<^verbatim>\<open>Abort\<close>.
\<close>

fun slice_calls :: "event list \<Rightarrow> nat list" where
  "slice_calls [] = []"
| "slice_calls (Invoked (SliceHandler i) # evs) = i # slice_calls evs"
| "slice_calls (ev # evs) = slice_calls evs"

fun after_abort :: "event list \<Rightarrow> event list" where
  "after_abort [] = []"
| "after_abort (AbortCalled # evs) = evs"
| "after_abort (ev # evs) = after_abort evs"

text \<open>
  The two sides of the loop condition of \<^verbatim>\<open>RouterSlicesNext\<close> as signed numbers; the
  condition is false in a \<open>finished\<close> state. \<open>run_ok lo e e'\<close> relates a state to a
  later one of the same run: the handler list is the same, events were only added,
  none of the added events enters a handler after an \<^verbatim>\<open>Abort\<close>, the handlers entered
  have increasing indices from \<open>lo\<close> on, none is entered from a finished state, and a
  run that returns has either finished the list or not touched the index.
\<close>

definition n8 :: "Exec \<Rightarrow> int" where
  "n8 e = sint (word_of_nat (length (handlers (req e))) :: 8 word)"

definition idx :: "Exec \<Rightarrow> int" where
  "idx e = sint (index (req e))"

definition finished :: "Exec \<Rightarrow> bool" where
  "finished e \<longleftrightarrow> n8 e \<le> idx e"

definition run_ok :: "int \<Rightarrow> Exec \<Rightarrow> Exec \<Rightarrow> bool" where
  "run_ok lo e e' \<longleftrightarrow>
     handlers (req e') = handlers (req e)
     \<and> (\<exists>evs. events e' = events e @ evs
          \<and> slice_calls (after_abort evs) = []
          \<and> sorted_wrt (<) (slice_calls evs)
          \<and> (\<forall>i \<in> set (slice_calls evs). lo \<le> int i \<and> int i < n8 e)
          \<and> (finished e \<or> idx e < 0 \<longrightarrow> slice_calls evs = [])
          \<and> (flow e' = Normal \<longrightarrow>
                finished e' \<or>
                (index (req e') = index (req e) \<and> slice_calls evs = [] \<and> AbortCalled \<notin> set evs)))"

text \<open>
  How many handlers of a list of the given length the 8-bit index can reach, and the
  events of one handler that only prints.
\<close>

definition slice_limit :: "nat \<Rightarrow> nat" where
  "slice_limit len = nat (sint (word_of_nat len :: 8 word))"

definition handler_events :: "RouterHandler list \<Rightarrow> nat \<Rightarrow> event list" where
  "handler_events hs i = Invoked (SliceHandler i) # map Printed (lines_of (hs ! i))"

section \<open>The slices router and its groups\<close>

text \<open>
  \<^verbatim>\<open>RouterSlices\<close>: the table \<^verbatim>\<open>Apis\<close> from message-id to handler list, and the global
  handlers. A function that may panic returns the panic (if any) beside the state it
  leaves behind.
\<close>

record RouterSlices =
  Apis :: "32 word \<rightharpoonup> RouterHandler list"
  Handlers :: "RouterHandler list"

definition NewRouterSlices :: RouterSlices where
  "NewRouterSlices = \<lparr>Apis = Map.empty, Handlers = []\<rparr>"

definition Use :: "RouterHandler list \<Rightarrow> RouterSlices \<Rightarrow> RouterSlices" where
  "Use handles r = r\<lparr>Handlers := Handlers r @ handles\<rparr>"

text \<open>Reading a key that is absent from a Go map gives the zero value: the nil slice.\<close>

definition Apis_at :: "RouterSlices \<Rightarrow> 32 word \<Rightarrow> RouterHandler list" where
  "Apis_at r msgId = (case Apis r msgId of None \<Rightarrow> [] | Some hs \<Rightarrow> hs)"

definition AddHandler ::
  "32 word \<Rightarrow> RouterHandler list \<Rightarrow> RouterSlices \<Rightarrow> panic option \<times> RouterSlices" where
  "AddHandler msgId hs r =
     (if msgId \<in> dom (Apis r) then (Some (RepeatedApi msgId), r)
      else
        let mergedHandlers = Handlers r @ hs in
        (None, r\<lparr>Apis := (Apis r)(msgId \<mapsto> Apis_at r msgId @ mergedHandlers)\<rparr>))"

definition GetHandlers :: "32 word \<Rightarrow> RouterSlices \<Rightarrow> RouterHandler list \<times> bool" where
  "GetHandlers MsgId r =
     (case Apis r MsgId of None \<Rightarrow> ([], False) | Some hs \<Rightarrow> (hs, True))"

text \<open>
  \<^verbatim>\<open>GroupRouter\<close>. Its \<^verbatim>\<open>router\<close> field points to the parent \<^verbatim>\<open>RouterSlices\<close>; here the
  parent is the state that \<open>Group_AddHandler\<close> is given and returns. The fields
  \<^verbatim>\<open>end\<close> and \<^verbatim>\<open>handlers\<close> carry a suffix (a keyword, and the request's field).
\<close>

record GroupRouter =
  start :: "32 word"
  end_g :: "32 word"
  handlers_g :: "RouterHandler list"

definition NewGroup :: "32 word \<Rightarrow> 32 word \<Rightarrow> RouterHandler list \<Rightarrow> GroupRouter" where
  "NewGroup s e hs = \<lparr>start = s, end_g = e, handlers_g = [] @ hs\<rparr>"

definition Group_Use :: "RouterHandler list \<Rightarrow> GroupRouter \<Rightarrow> GroupRouter" where
  "Group_Use hs g = g\<lparr>handlers_g := handlers_g g @ hs\<rparr>"

definition Group_AddHandler ::
  "GroupRouter \<Rightarrow> 32 word \<Rightarrow> RouterHandler list \<Rightarrow> RouterSlices \<Rightarrow> panic option \<times> RouterSlices"
  where
  "Group_AddHandler g MsgId hs r =
     (if MsgId < start g \<or> MsgId > end_g g then (Some (GroupOutOfRange MsgId), r)
      else
        let mergedHandlers = handlers_g g @ hs in
        AddHandler MsgId mergedHandlers r)"

text \<open>
  The registrations that can follow one another on a router. A panic leaves the router
  as the panicking call left it.
\<close>

datatype RouterOp =
    OpUse "RouterHandler list"
  | OpAddHandler "32 word" "RouterHandler list"
  | OpGroupAddHandler GroupRouter "32 word" "RouterHandler list"

fun apply_op :: "RouterOp \<Rightarrow> RouterSlices \<Rightarrow> RouterSlices" where
  "apply_op (OpUse hs) r = Use hs r"
| "apply_op (OpAddHandler m hs) r = snd (AddHandler m hs r)"
| "apply_op (OpGroupAddHandler g m hs) r = snd (Group_AddHandler g m hs r)"

fun apply_ops :: "RouterOp list \<Rightarrow> RouterSlices \<Rightarrow> RouterSlices" where
  "apply_ops [] r = r"
| "apply_ops (op # ops) r = apply_ops ops (apply_op op r)"


section \<open>The interceptor chain\<close>

text \<open>
  An interceptor is known by what it is (the decoder, a user's interceptor, or the
  message handler itself, which \<^verbatim>\<open>newMsgHandle\<close> installs as the tail) and by whether
  its \<^verbatim>\<open>Intercept\<close> calls \<^verbatim>\<open>Proceed\<close> on the chain it is given.
  \<^verbatim>\<open>MsgHandle.Intercept\<close> always does.
\<close>

datatype IInterceptor =
    Decoder string bool
  | UserInterceptor string bool
  | Dispatcher

fun proceeds :: "IInterceptor \<Rightarrow> bool" where
  "proceeds (Decoder nm b) = b"
| "proceeds (UserInterceptor nm b) = b"
| "proceeds Dispatcher = True"

record chainBuilder =
  body :: "IInterceptor list"
  head :: "IInterceptor option"
  tail :: "IInterceptor option"

definition newChainBuilder :: chainBuilder where
  "newChainBuilder = \<lparr>body = [], head = None, tail = None\<rparr>"

definition Head :: "IInterceptor \<Rightarrow> chainBuilder \<Rightarrow> chainBuilder" where
  "Head interceptor ic = ic\<lparr>head := Some interceptor\<rparr>"

definition Tail :: "IInterceptor \<Rightarrow> chainBuilder \<Rightarrow> chainBuilder" where
  "Tail interceptor ic = ic\<lparr>tail := Some interceptor\<rparr>"

definition chainBuilder_AddInterceptor :: "IInterceptor \<Rightarrow> chainBuilder \<Rightarrow> chainBuilder" where
  "chainBuilder_AddInterceptor interceptor ic = ic\<lparr>body := body ic @ [interceptor]\<rparr>"

text \<open>The slice that \<^verbatim>\<open>chainBuilder.Execute\<close> hands to \<^verbatim>\<open>NewChain\<close>.\<close>

definition interceptors :: "chainBuilder \<Rightarrow> IInterceptor list" where
  "interceptors ic =
     (case head ic of None \<Rightarrow> [] | Some h \<Rightarrow> [h])
     @ (if length (body ic) > 0 then body ic else [])
     @ (case tail ic of None \<Rightarrow> [] | Some t \<Rightarrow> [t])"

text \<open>
  Modelled from the spec: the chain cursor (\<^verbatim>\<open>chain.go\<close> is not among the sources).
  \<^verbatim>\<open>Proceed\<close> invokes the interceptor at the cursor with a chain whose cursor is one
  further, and does nothing past the end; an interceptor that returns without calling
  \<^verbatim>\<open>Proceed\<close> ends the propagation. The value is the list of the interceptors whose
  \<^verbatim>\<open>Intercept\<close> was invoked, in the order of invocation.
\<close>

function Proceed :: "IInterceptor list \<Rightarrow> nat \<Rightarrow> IInterceptor list" where
  "Proceed ics position =
     (if position < length ics then
        ics ! position # (if proceeds (ics ! position) then Proceed ics (position + 1) else [])
      else [])"
  by pat_completeness auto
termination
  by (relation "measure (\<lambda>(ics, position). length ics - position)") auto

declare Proceed.simps [simp del]

definition chainBuilder_Execute :: "chainBuilder \<Rightarrow> IInterceptor list" where
  "chainBuilder_Execute ic = Proceed (interceptors ic) 0"

section \<open>The message handler\<close>

text \<open>
  \<^verbatim>\<open>MsgHandle\<close>. A value of \<^verbatim>\<open>routers\<close> is an \<^verbatim>\<open>IRouter\<close> interface value, which may be
  nil; \<^verbatim>\<open>freeWorkers\<close> is a Go map used as a set, nil outside Bind mode; \<^verbatim>\<open>builder\<close> is a
  pointer. The task queues are the worker's input below.
\<close>

record MsgHandle =
  routers :: "32 word \<rightharpoonup> IRouter option"
  workerPoolSize :: "32 word"
  freeWorkers :: "32 word set option"
  builder :: "chainBuilder option"
  routerSlices :: RouterSlices

text \<open>
  \<^verbatim>\<open>newMsgHandle\<close>. In Bind mode it overwrites the global \<^verbatim>\<open>WorkerPoolSize\<close> with
  \<^verbatim>\<open>uint32(MaxConn)\<close> and fills the free set with \<^verbatim>\<open>0 .. WorkerPoolSize - 1\<close>.
\<close>

definition newMsgHandle :: "Config \<Rightarrow> Config \<times> MsgHandle" where
  "newMsgHandle cfg =
     (let cfg' = (if WorkerMode cfg = WorkerModeBind
                  then cfg\<lparr>WorkerPoolSize := word_of_int (MaxConn cfg)\<rparr> else cfg);
          free = (if WorkerMode cfg = WorkerModeBind
                  then Some (fold (\<lambda>i S. insert (word_of_nat i) S)
                               [0 ..< unat (WorkerPoolSize cfg')] {})
                  else None)
      in (cfg',
          \<lparr>routers = Map.empty, workerPoolSize = WorkerPoolSize cfg', freeWorkers = free,
           builder = Some (Tail Dispatcher newChainBuilder),
           routerSlices = NewRouterSlices\<rparr>))"


text \<open>
  \<^verbatim>\<open>useWorker\<close> and \<^verbatim>\<open>freeWorker\<close>. The first argument after the configuration is the
  outcome of \<^verbatim>\<open>conn.GetMsgHandler().(*MsgHandle)\<close>: nil when the assertion fails.
\<close>

definition useWorker ::
  "Config \<Rightarrow> MsgHandle option \<Rightarrow> IConnection \<Rightarrow> 32 word option \<Rightarrow> 32 word \<times> MsgHandle option"
  where
  "useWorker cfg mho c firstKey =
     (case mho of
        None \<Rightarrow> (0, None)
      | Some mh \<Rightarrow>
          (case (if WorkerMode cfg = WorkerModeBind then firstKey else None) of
             Some k \<Rightarrow>
               (k, Some (mh\<lparr>freeWorkers := map_option (\<lambda>S. S - {k}) (freeWorkers mh)\<rparr>))
           | None \<Rightarrow>
               if workerPoolSize mh \<le> 0 then (0, Some mh)
               else (ucast (connID c mod (ucast (workerPoolSize mh) :: 64 word)), Some mh)))"


definition MsgHandle_AddInterceptor :: "IInterceptor \<Rightarrow> MsgHandle \<Rightarrow> MsgHandle" where
  "MsgHandle_AddInterceptor interceptor mh =
     (case builder mh of
        None \<Rightarrow> mh
      | Some b \<Rightarrow> mh\<lparr>builder := Some (chainBuilder_AddInterceptor interceptor b)\<rparr>)"

text \<open>\<^verbatim>\<open>MsgHandle.Execute\<close> dereferences the builder without a check.\<close>

definition MsgHandle_Execute :: "MsgHandle \<Rightarrow> panic + IInterceptor list" where
  "MsgHandle_Execute mh =
     (case builder mh of
        None \<Rightarrow> Inl NilPointerDereference
      | Some b \<Rightarrow> Inr (chainBuilder_Execute b))"

definition AddRouter :: "32 word \<Rightarrow> IRouter option \<Rightarrow> MsgHandle \<Rightarrow> panic option \<times> MsgHandle" where
  "AddRouter msgID rt mh =
     (if msgID \<in> dom (routers mh) then (Some (RepeatedApi msgID), mh)
      else (None, mh\<lparr>routers := (routers mh)(msgID \<mapsto> rt)\<rparr>))"

definition AddRouterSlices ::
  "32 word \<Rightarrow> RouterHandler list \<Rightarrow> MsgHandle \<Rightarrow> panic option \<times> MsgHandle" where
  "AddRouterSlices msgId hs mh =
     (let (p, rs) = AddHandler msgId hs (routerSlices mh) in (p, mh\<lparr>routerSlices := rs\<rparr>))"


definition MsgHandle_Use :: "RouterHandler list \<Rightarrow> MsgHandle \<Rightarrow> MsgHandle" where
  "MsgHandle_Use hs mh = mh\<lparr>routerSlices := Use hs (routerSlices mh)\<rparr>"

subsection \<open>Dispatch and the worker\<close>

text \<open>
  The deferred function of \<^verbatim>\<open>doMsgHandler\<close>, \<^verbatim>\<open>doMsgHandlerSlices\<close> and
  \<^verbatim>\<open>doFuncHandler\<close>: a panic that reaches it is logged with the worker-id, and the
  function returns normally. \<^verbatim>\<open>doMsgHandlerSlices\<close> logs under the name
  \<^verbatim>\<open>doMsgHandler\<close> too.
\<close>

definition recover :: "string \<Rightarrow> int \<Rightarrow> Exec \<Rightarrow> Exec" where
  "recover who wid e =
     (case flow e of
        Panicking p \<Rightarrow> emit (ErrorF_panic who wid p) (e\<lparr>flow := Normal\<rparr>)
      | _ \<Rightarrow> e)"

definition doMsgHandler_body :: "nat \<Rightarrow> Config \<Rightarrow> MsgHandle \<Rightarrow> Exec \<Rightarrow> Exec" where
  "doMsgHandler_body n cfg mh e =
     (let msgId = GetMsgID (req e) in
      case routers mh msgId of
        None \<Rightarrow> emit (ErrorF_notFound msgId) e
      | Some handler \<Rightarrow> Call n cfg (e\<lparr>req := BindRouter handler (req e)\<rparr>))"

definition doMsgHandler :: "nat \<Rightarrow> Config \<Rightarrow> MsgHandle \<Rightarrow> int \<Rightarrow> Exec \<Rightarrow> Exec" where
  "doMsgHandler n cfg mh wid e = recover ''doMsgHandler'' wid (doMsgHandler_body n cfg mh e)"

definition doMsgHandlerSlices_body :: "nat \<Rightarrow> Config \<Rightarrow> MsgHandle \<Rightarrow> Exec \<Rightarrow> Exec" where
  "doMsgHandlerSlices_body n cfg mh e =
     (let msgId = GetMsgID (req e); (hs, ok) = GetHandlers msgId (routerSlices mh) in
      if \<not> ok then emit (ErrorF_notFound msgId) e
      else RouterSlicesNext n cfg (e\<lparr>req := BindRouterSlices hs (req e)\<rparr>))"

definition doMsgHandlerSlices :: "nat \<Rightarrow> Config \<Rightarrow> MsgHandle \<Rightarrow> int \<Rightarrow> Exec \<Rightarrow> Exec" where
  "doMsgHandlerSlices n cfg mh wid e =
     recover ''doMsgHandler'' wid (doMsgHandlerSlices_body n cfg mh e)"

text \<open>
  \<^verbatim>\<open>RequestFunc\<close>: a connection and a closure, which may be nil. The closure is given no
  request; it is the lines it prints and the panic it may raise.
\<close>

datatype fstmt = FuncPrintln string | FuncPanic string

record RequestFunc =
  conn_f :: IConnection
  callFunc :: "fstmt list option"

fun run_func :: "fstmt list \<Rightarrow> event list \<Rightarrow> event list \<times> flow" where
  "run_func [] evs = (evs, Normal)"
| "run_func (FuncPrintln s # ss) evs = run_func ss (evs @ [Printed s])"
| "run_func (FuncPanic v # ss) evs = (evs, Panicking (UserPanic v))"

definition CallFunc :: "RequestFunc \<Rightarrow> event list \<Rightarrow> event list \<times> flow" where
  "CallFunc rf evs = (case callFunc rf of None \<Rightarrow> (evs, Normal) | Some f \<Rightarrow> run_func f evs)"

definition doFuncHandler :: "RequestFunc \<Rightarrow> int \<Rightarrow> event list \<Rightarrow> event list \<times> flow" where
  "doFuncHandler rf wid evs =
     (case CallFunc rf evs of
        (evs', Panicking p) \<Rightarrow> (evs' @ [ErrorF_panic ''doFuncRequest'' wid p], Normal)
      | (evs', fl) \<Rightarrow> (evs', fl))"

text \<open>
  \<^verbatim>\<open>StartOneWorker\<close>: the worker takes the requests from its queue one after the other;
  the type switch tries \<^verbatim>\<open>IFuncRequest\<close> first. The list is what the queue delivers;
  with the queue empty the worker waits (\<open>Normal\<close>). A panic that escaped a handler
  call would end the worker's goroutine, and a handler that does not return keeps the
  worker for good: in both cases the rest of the queue is not served.
\<close>

datatype task = FuncTask RequestFunc | MsgTask Request

definition serve :: "nat \<Rightarrow> Config \<Rightarrow> MsgHandle \<Rightarrow> int \<Rightarrow> task \<Rightarrow> event list \<Rightarrow> event list \<times> flow"
  where
  "serve n cfg mh wid t evs =
     (case t of
        FuncTask rf \<Rightarrow> doFuncHandler rf wid evs
      | MsgTask r \<Rightarrow>
          if \<not> RouterSlicesMode cfg then
            (let e = doMsgHandler n cfg mh wid \<lparr>req = r, events = evs, flow = Normal\<rparr>
             in (events e, flow e))
          else if RouterSlicesMode cfg then
            (let e = doMsgHandlerSlices n cfg mh wid \<lparr>req = r, events = evs, flow = Normal\<rparr>
             in (events e, flow e))
          else (evs, Normal))"

fun StartOneWorker ::
  "nat \<Rightarrow> Config \<Rightarrow> MsgHandle \<Rightarrow> int \<Rightarrow> task list \<Rightarrow> event list \<Rightarrow> event list \<times> flow" where
  "StartOneWorker n cfg mh wid [] evs = (evs, Normal)"
| "StartOneWorker n cfg mh wid (t # taskQueue) evs =
     (let (evs', fl) = serve n cfg mh wid t evs in
      if fl \<noteq> Normal then (evs', fl) else StartOneWorker n cfg mh wid taskQueue evs')"

text \<open>
  The run of a queued request inside the recover boundary of its handler function (the
  body without the deferred function), and the name the deferred function logs.
\<close>

definition handler_outcome ::
  "nat \<Rightarrow> Config \<Rightarrow> MsgHandle \<Rightarrow> task \<Rightarrow> event list \<Rightarrow> event list \<times> flow" where
  "handler_outcome n cfg mh t evs =
     (case t of
        FuncTask rf \<Rightarrow> CallFunc rf evs
      | MsgTask r \<Rightarrow>
          (let e = (if \<not> RouterSlicesMode cfg
                    then doMsgHandler_body n cfg mh \<lparr>req = r, events = evs, flow = Normal\<rparr>
                    else doMsgHandlerSlices_body n cfg mh \<lparr>req = r, events = evs, flow = Normal\<rparr>)
           in (events e, flow e)))"

definition logged_as :: "task \<Rightarrow> string" where
  "logged_as t = (case t of FuncTask rf \<Rightarrow> ''doFuncRequest'' | MsgTask r \<Rightarrow> ''doMsgHandler'')"

section \<open>The server\<close>

text \<open>
  The part of \<^verbatim>\<open>Server\<close> that builds the interceptor chain: the decoder (the TLV decoder
  unless \<^verbatim>\<open>SetDecoder\<close> replaces it) and the message handler. \<^verbatim>\<open>Start\<close> registers the
  decoder through \<^verbatim>\<open>AddInterceptor\<close>, then starts the workers and the listeners.
\<close>

record Server =
  decoder :: "IInterceptor option"
  msgHandler :: MsgHandle

definition newServerWithConfig :: "Config \<Rightarrow> Config \<times> Server" where
  "newServerWithConfig cfg =
     (let (cfg', mh) = newMsgHandle cfg in
      (cfg', \<lparr>decoder = Some (Decoder ''TLV'' True), msgHandler = mh\<rparr>))"

definition SetDecoder :: "IInterceptor option \<Rightarrow> Server \<Rightarrow> Server" where
  "SetDecoder d s = s\<lparr>decoder := d\<rparr>"

definition Server_AddInterceptor :: "IInterceptor \<Rightarrow> Server \<Rightarrow> Server" where
  "Server_AddInterceptor interceptor s =
     s\<lparr>msgHandler := MsgHandle_AddInterceptor interceptor (msgHandler s)\<rparr>"

definition Start :: "Server \<Rightarrow> Server" where
  "Start s =
     (case decoder s of
        None \<Rightarrow> s
      | Some d \<Rightarrow> s\<lparr>msgHandler := MsgHandle_AddInterceptor d (msgHandler s)\<rparr>)"

text \<open>
  A server as the registration calls leave it: created, given the decoder \<open>d\<close>, the
  user interceptors \<open>us\<close> added (in this order), started, and the user interceptors
  \<open>vs\<close> added after the start.
\<close>

definition started ::
  "Config \<Rightarrow> IInterceptor \<Rightarrow> IInterceptor list \<Rightarrow> IInterceptor list \<Rightarrow> Server" where
  "started cfg d us vs =
     fold Server_AddInterceptor vs
       (Start (fold Server_AddInterceptor us (SetDecoder (Some d) (snd (newServerWithConfig cfg)))))"

subsection \<open>Accepting and closing connections\<close>







text \<open>
  The worker-ids \<^verbatim>\<open>0 .. WorkerPoolSize - 1\<close>, and the invariant of a server in Bind mode:
  every worker-id of the pool is either free or held by a live connection, never both;
  no two live connections share a connection-id or a worker-id; the connection manager
  holds at most \<^verbatim>\<open>MaxConn\<close> connections.
\<close>

definition pool :: "Config \<Rightarrow> 32 word set" where
  "pool cfg = word_of_nat ` {0 ..< unat (WorkerPoolSize cfg)}"


section \<open>The HTLV/CRC decoder\<close>

text \<open>
  \<^verbatim>\<open>HtlvCrcDecoder\<close>: head, function code, length, body, CRC and the original bytes.
  \<^verbatim>\<open>CheckCRC\<close> is not among the sources; it is an argument.
\<close>

record HtlvCrcDecoder =
  Head_h :: "8 word"
  FunCode :: "8 word"
  Length_h :: "8 word"
  Body :: "8 word list"
  Crc :: "8 word list"
  Data :: "8 word list"

definition HeaderSize :: nat where
  "HeaderSize = 5"

text \<open>
  \<^verbatim>\<open>decode\<close> reads \<^verbatim>\<open>data[0]\<close>, \<^verbatim>\<open>data[1]\<close>, \<^verbatim>\<open>data[2]\<close>, slices \<^verbatim>\<open>data[3 : dataSize-2]\<close>
  and \<^verbatim>\<open>data[dataSize-2 : dataSize]\<close>, and returns nil when the CRC check fails.
\<close>

definition decode ::
  "(8 word list \<Rightarrow> 8 word list \<Rightarrow> bool) \<Rightarrow> 8 word list \<Rightarrow> panic + HtlvCrcDecoder option" where
  "decode CheckCRC data =
     (let dataSize = length data in
      if dataSize < 3 then Inl (IndexOutOfRange (int dataSize) dataSize)
      else if int dataSize - 2 < 3 then Inl SliceBoundsOutOfRange
      else
        let htlvData =
              \<lparr>Head_h = data ! 0, FunCode = data ! 1, Length_h = data ! 2,
               Body = take (dataSize - 2 - 3) (drop 3 data),
               Crc = drop (dataSize - 2) data, Data = data\<rparr>
        in if \<not> CheckCRC (take (dataSize - 2) data) (Crc htlvData) then Inr None
           else Inr (Some htlvData))"

text \<open>
  \<^verbatim>\<open>Intercept\<close> ends in a call of \<^verbatim>\<open>chain.ProceedWithIMessage(message, decoded)\<close>; the
  call and its two arguments are the value here. Between \<^verbatim>\<open>decode\<close> and that call the
  source reads \<^verbatim>\<open>htlvData.FunCode\<close> with no nil check.
\<close>

datatype chain_call = ProceedWithIMessage "Message option" "HtlvCrcDecoder option"

definition Intercept ::
  "(8 word list \<Rightarrow> 8 word list \<Rightarrow> bool) \<Rightarrow> Message option \<Rightarrow> panic + chain_call" where
  "Intercept CheckCRC message =
     (case message of
        None \<Rightarrow> Inr (ProceedWithIMessage None None)
      | Some m \<Rightarrow>
          let data = data_m m in
          if length data < HeaderSize then Inr (ProceedWithIMessage (Some m) None)
          else
            (case decode CheckCRC data of
               Inl p \<Rightarrow> Inl p
             | Inr None \<Rightarrow> Inl NilPointerDereference
             | Inr (Some htlvData) \<Rightarrow>
                 Inr (ProceedWithIMessage (Some (m\<lparr>id_m := ucast (FunCode htlvData)\<rparr>))
                        (Some htlvData))))"


section \<open>Scenarios\<close>

text \<open>Scenario 1 of the specification: Hash mode with four workers.\<close>

definition cfg_hash4 :: Config where
  "cfg_hash4 =
     \<lparr>MaxConn = 12000, WorkerPoolSize = 4, WorkerMode = WorkerModeHash,
      RouterSlicesMode = True\<rparr>"

text \<open>
  The handlers of the example servers: \<^verbatim>\<open>helloHandle\<close> prints a line, \<^verbatim>\<open>auth\<close> prints a
  line and calls \<^verbatim>\<open>Abort\<close>; a classic router that prints P, H and Po in its three
  methods; the message handler of scenario 1; a group over the ids 1 to 10.
\<close>

definition helloHandle :: RouterHandler where
  "helloHandle = [Println ''receive from client'']"

definition auth :: RouterHandler where
  "auth = [Println ''request use ...'', CallAbort]"

definition phpo_router :: IRouter where
  "phpo_router =
     \<lparr>PreHandle_m = [Println ''P''], Handle_m = [Println ''H''], PostHandle_m = [Println ''Po'']\<rparr>"

definition mh_hash4 :: MsgHandle where
  "mh_hash4 = snd (newMsgHandle cfg_hash4)"

definition group_1_10 :: GroupRouter where
  "group_1_10 = Group_Use [helloHandle] (NewGroup 1 10 [auth])"

text \<open>
  The frame of scenario 3 with its two CRC bytes replaced by zeros, and a check that
  accepts the CRC bytes 05 0B of that scenario only.
\<close>

definition frame_bad_crc :: "8 word list" where
  "frame_bad_crc =
     [0xA2, 0x10, 0x0E, 0x01, 0x02, 0x03, 0x04, 0x05, 0x06, 0x07, 0x08, 0x09, 0x10, 0x11,
      0x12, 0x13, 0x14, 0x00, 0x00]"

definition CheckCRC_050B :: "8 word list \<Rightarrow> 8 word list \<Rightarrow> bool" where
  "CheckCRC_050B src crc = (crc = [0x05, 0x0B])"

text \<open>A user interceptor that passes the request on, and the default decoder.\<close>

definition logger :: IInterceptor where
  "logger = UserInterceptor ''logger'' True"

definition tlv :: IInterceptor where
  "tlv = Decoder ''TLV'' True"

text \<open>A configuration with the classic router, and a request for message-id 1.\<close>

definition cfg_classic :: Config where
  "cfg_classic =
     \<lparr>MaxConn = 12000, WorkerPoolSize = 4, WorkerMode = WorkerModeHash,
      RouterSlicesMode = False\<rparr>"

definition request1 :: Request where
  "request1 = NewRequest \<lparr>connID = 1, workerID = 1\<rparr> \<lparr>id_m = 1, data_m = []\<rparr>"

definition fresh :: "Request \<Rightarrow> Exec" where
  "fresh r = \<lparr>req = r, events = [], flow = Normal\<rparr>"








text \<open>
  A classic router whose PreHandle jumps to PostHandle with \<^verbatim>\<open>Goto\<close> and whose
  PostHandle calls \<^verbatim>\<open>Abort\<close>.
\<close>

definition jump_router :: IRouter where
  "jump_router =
     \<lparr>PreHandle_m = [Println ''P'', CallGoto PostHandle], Handle_m = [Println ''H''],
      PostHandle_m = [Println ''Po'', CallAbort]\<rparr>"

text \<open>
  A slices router with a handler that panics on message-id 1 and \<^verbatim>\<open>helloHandle\<close> on
  message-id 2, and a request for message-id 2.
\<close>

definition panic_handler :: RouterHandler where
  "panic_handler = [Println ''before'', Panic ''boom'', Println ''after'']"

definition mh_slices2 :: MsgHandle where
  "mh_slices2 = snd (AddRouterSlices 2 [helloHandle] (snd (AddRouterSlices 1 [panic_handler] mh_hash4)))"

definition request2 :: Request where
  "request2 = NewRequest \<lparr>connID = 1, workerID = 1\<rparr> \<lparr>id_m = 2, data_m = []\<rparr>"

text \<open>
  Scenario 2: \<^verbatim>\<open>Use(auth)\<close>, then \<^verbatim>\<open>AddRouterSlices(1, helloHandle)\<close>; and a router with
  two handlers that only print on message-id 1.
\<close>

definition mh_auth :: MsgHandle where
  "mh_auth = snd (AddRouterSlices 1 [helloHandle] (MsgHandle_Use [auth] mh_hash4))"

definition byeHandle :: RouterHandler where
  "byeHandle = [Println ''bye'']"

definition mh_two :: MsgHandle where
  "mh_two = snd (AddRouterSlices 1 [helloHandle, byeHandle] mh_hash4)"



section \<open>Worker affinity in Hash mode\<close>

lemma unat_lt_32: "unat (w::32 word) < 2 ^ 32"
  using unsigned_less[of w, where 'a=nat] by simp

lemma hash_unat:
  assumes "0 < (w::32 word)"
  shows "unat (ucast ((x::64 word) mod ucast w) :: 32 word) = unat x mod unat w"
proof -
  have w0: "0 < unat w" using assms by (simp add: word_less_nat_alt)
  have "unat w < 2 ^ 64" using unat_lt_32[of w] by simp
  then have up: "take_bit 64 (unat w) = unat w"
    by (simp add: take_bit_nat_eq_self_iff)
  have "unat x mod unat w < unat w" using w0 by simp
  then have "unat x mod unat w < 2 ^ 32"
    using unat_lt_32[of w] by linarith
  then have lt: "take_bit 32 (unat x mod unat w) = unat x mod unat w"
    by (simp add: take_bit_nat_eq_self_iff)
  show ?thesis
    by (simp add: unsigned_ucast_eq unat_mod up lt)
qed

text \<open>
  C6. Outside Bind mode, with a worker pool of positive size, \<open>useWorker\<close> gives a
  connection the worker-id \<^verbatim>\<open>connID mod workerPoolSize\<close> (as unsigned numbers, so the
  conversions between 64 and 32 bits lose nothing) and leaves the message handler as
  it was.
\<close>

theorem useWorker_hash_mode:
  assumes "WorkerMode cfg \<noteq> WorkerModeBind" and "0 < workerPoolSize mh"
  shows "useWorker cfg (Some mh) c firstKey =
           (ucast (connID c mod ucast (workerPoolSize mh)), Some mh)
         \<and> unat (fst (useWorker cfg (Some mh) c firstKey))
             = unat (connID c) mod unat (workerPoolSize mh)"
proof -
  have "\<not> workerPoolSize mh \<le> 0"
    using assms(2) by (simp add: word_less_nat_alt word_le_nat_alt)
  then have eq: "useWorker cfg (Some mh) c firstKey =
           (ucast (connID c mod ucast (workerPoolSize mh)), Some mh)"
    using assms(1) by (simp add: useWorker_def)
  show ?thesis
    by (simp add: eq hash_unat[OF assms(2)])
qed

text \<open>With four workers the connections 1, 2, 3, 4 get the workers 1, 2, 3, 0.\<close>

theorem useWorker_hash_mode_witness:
  "WorkerMode cfg_hash4 \<noteq> WorkerModeBind
   \<and> 0 < workerPoolSize (snd (newMsgHandle cfg_hash4))
   \<and> map (\<lambda>i. fst (useWorker cfg_hash4 (Some (snd (newMsgHandle cfg_hash4)))
                    \<lparr>connID = i, workerID = 0\<rparr> None)) [1, 2, 3, 4] = [1, 2, 3, 0]"
proof -
  let ?mh = "snd (newMsgHandle cfg_hash4)"
  have m: "WorkerMode cfg_hash4 \<noteq> WorkerModeBind"
    by (simp add: cfg_hash4_def WorkerModeHash_def WorkerModeBind_def)
  have p: "0 < workerPoolSize ?mh" and q: "workerPoolSize ?mh = 4"
    by (simp_all add: newMsgHandle_def cfg_hash4_def WorkerModeHash_def WorkerModeBind_def Let_def)
  show ?thesis
    using useWorker_hash_mode[OF m p, of "\<lparr>connID = 1, workerID = 0\<rparr>" None]
      useWorker_hash_mode[OF m p, of "\<lparr>connID = 2, workerID = 0\<rparr>" None]
      useWorker_hash_mode[OF m p, of "\<lparr>connID = 3, workerID = 0\<rparr>" None]
      useWorker_hash_mode[OF m p, of "\<lparr>connID = 4, workerID = 0\<rparr>" None]
      m p
    by (simp add: q)
qed

section \<open>Registration\<close>

text \<open>
  C3. A message-id that is in the router table cannot be registered again: on the
  classic router (\<open>AddRouter\<close>) and on the slices router (\<open>AddHandler\<close>, also through
  \<open>AddRouterSlices\<close> of the message handler and through a group) the call panics with
  the duplicate-API panic and the table is the one before the call. A registration
  that returns normally puts the id into the table.
\<close>

theorem duplicate_registration_fails:
  "(msgID \<in> dom (routers mh) \<longrightarrow> AddRouter msgID rt mh = (Some (RepeatedApi msgID), mh))
   \<and> (msgID \<in> dom (Apis r) \<longrightarrow> AddHandler msgID hs r = (Some (RepeatedApi msgID), r))
   \<and> (msgID \<in> dom (Apis (routerSlices mh)) \<longrightarrow>
        AddRouterSlices msgID hs mh = (Some (RepeatedApi msgID), mh))
   \<and> (msgID \<in> dom (Apis r) \<and> start g \<le> msgID \<and> msgID \<le> end_g g \<longrightarrow>
        Group_AddHandler g msgID hs r = (Some (RepeatedApi msgID), r))
   \<and> (fst (AddRouter msgID rt mh) = None \<longrightarrow> msgID \<in> dom (routers (snd (AddRouter msgID rt mh))))
   \<and> (fst (AddHandler msgID hs r) = None \<longrightarrow> msgID \<in> dom (Apis (snd (AddHandler msgID hs r))))"
  by (auto simp: AddRouter_def AddHandler_def AddRouterSlices_def Group_AddHandler_def Let_def
      split: if_splits)

theorem duplicate_registration_fails_witness:
  "fst (AddRouter 1 (Some phpo_router) mh_hash4) = None
   \<and> 1 \<in> dom (routers (snd (AddRouter 1 (Some phpo_router) mh_hash4)))
   \<and> AddRouter 1 None (snd (AddRouter 1 (Some phpo_router) mh_hash4))
       = (Some (RepeatedApi 1), snd (AddRouter 1 (Some phpo_router) mh_hash4))
   \<and> fst (AddHandler 1 [auth] NewRouterSlices) = None
   \<and> 1 \<in> dom (Apis (snd (AddHandler 1 [auth] NewRouterSlices)))
   \<and> AddHandler 1 [helloHandle] (snd (AddHandler 1 [auth] NewRouterSlices))
       = (Some (RepeatedApi 1), snd (AddHandler 1 [auth] NewRouterSlices))"
proof -
  let ?mh1 = "snd (AddRouter 1 (Some phpo_router) mh_hash4)"
  let ?r1 = "snd (AddHandler 1 [auth] NewRouterSlices)"
  have a: "fst (AddRouter 1 (Some phpo_router) mh_hash4) = None"
    by (simp add: AddRouter_def mh_hash4_def newMsgHandle_def Let_def)
  have b: "fst (AddHandler 1 [auth] NewRouterSlices) = None"
    by (simp add: AddHandler_def NewRouterSlices_def Let_def)
  show ?thesis
    using duplicate_registration_fails[of 1 mh_hash4 "Some phpo_router" NewRouterSlices "[auth]"]
      duplicate_registration_fails[of 1 ?mh1 None ?r1 "[helloHandle]"] a b
    by simp
qed

lemma apply_op_keeps:
  "Apis r M = Some hs \<Longrightarrow> Apis (apply_op op r) M = Some hs"
  by (cases op) (auto simp: Use_def AddHandler_def Group_AddHandler_def Let_def)

lemma apply_ops_keeps:
  "Apis r M = Some hs \<Longrightarrow> Apis (apply_ops ops r) M = Some hs"
  by (induction ops arbitrary: r) (auto simp: apply_op_keeps)

lemma AddHandler_returns:
  "fst (AddHandler M H r) = None \<Longrightarrow> Apis (snd (AddHandler M H r)) M = Some (Handlers r @ H)"
  by (auto simp: AddHandler_def Apis_at_def Let_def domIff split: if_splits)

lemma Group_AddHandler_in_range:
  "start g \<le> M \<Longrightarrow> M \<le> end_g g \<Longrightarrow>
     Group_AddHandler g M H r = AddHandler M (handlers_g g @ H) r"
  by (auto simp: Group_AddHandler_def Let_def)

lemma Group_AddHandler_returns:
  "fst (Group_AddHandler g M H r) = None \<Longrightarrow>
     Apis (snd (Group_AddHandler g M H r)) M = Some (Handlers r @ handlers_g g @ H)"
  using AddHandler_returns[of M "handlers_g g @ H" r]
  by (auto simp: Group_AddHandler_def Let_def split: if_splits)

text \<open>
  C4. When a registration of \<open>M\<close> through a group returns normally, every later
  \<open>GetHandlers M\<close> (after any further \<open>Use\<close> and registrations) gives the router's
  global handlers at that time, then the group's handlers, then the handlers of the
  call; a direct registration gives the same with an empty group part. For an id in
  the group's range the group registration is the parent's
  \<open>AddHandler M (group handlers @ H)\<close>: the same outcome and the same table.
\<close>

theorem effective_handler_list:
  "(fst (Group_AddHandler g M H r) = None \<longrightarrow>
      GetHandlers M (apply_ops ops (snd (Group_AddHandler g M H r)))
        = (Handlers r @ handlers_g g @ H, True))
   \<and> (fst (AddHandler M H r) = None \<longrightarrow>
      GetHandlers M (apply_ops ops (snd (AddHandler M H r))) = (Handlers r @ [] @ H, True))
   \<and> (start g \<le> M \<and> M \<le> end_g g \<longrightarrow>
      Group_AddHandler g M H r = AddHandler M (handlers_g g @ H) r)"
proof -
  have g1: "GetHandlers M (apply_ops ops (snd (Group_AddHandler g M H r)))
              = (Handlers r @ handlers_g g @ H, True)"
    if "fst (Group_AddHandler g M H r) = None"
    using apply_ops_keeps[OF Group_AddHandler_returns[OF that], of ops]
    by (simp add: GetHandlers_def)
  have g2: "GetHandlers M (apply_ops ops (snd (AddHandler M H r))) = (Handlers r @ [] @ H, True)"
    if "fst (AddHandler M H r) = None"
    using apply_ops_keeps[OF AddHandler_returns[OF that], of ops]
    by (simp add: GetHandlers_def)
  show ?thesis
    using g1 g2 Group_AddHandler_in_range by blast
qed

theorem effective_handler_list_witness:
  "fst (Group_AddHandler group_1_10 3 [[CallRouterSlicesNext]] (Use [auth] NewRouterSlices)) = None
   \<and> GetHandlers 3
        (apply_ops [OpUse [[]], OpAddHandler 3 [], OpGroupAddHandler group_1_10 4 []]
           (snd (Group_AddHandler group_1_10 3 [[CallRouterSlicesNext]] (Use [auth] NewRouterSlices))))
      = ([auth, auth, helloHandle, [CallRouterSlicesNext]], True)
   \<and> fst (AddHandler 1 [helloHandle] (Use [auth] NewRouterSlices)) = None
   \<and> GetHandlers 1 (apply_ops [OpUse [[]]] (snd (AddHandler 1 [helloHandle] (Use [auth] NewRouterSlices))))
      = ([auth, helloHandle], True)
   \<and> start group_1_10 \<le> 3 \<and> 3 \<le> end_g group_1_10
   \<and> Group_AddHandler group_1_10 3 [[CallRouterSlicesNext]] (Use [auth] NewRouterSlices)
      = AddHandler 3 (handlers_g group_1_10 @ [[CallRouterSlicesNext]]) (Use [auth] NewRouterSlices)"
proof -
  let ?r = "Use [auth] NewRouterSlices"
  let ?ops = "[OpUse [[]], OpAddHandler 3 [], OpGroupAddHandler group_1_10 4 []]"
  have b: "start group_1_10 \<le> 3" and c: "3 \<le> end_g group_1_10"
    by (simp_all add: group_1_10_def Group_Use_def NewGroup_def)
  have a: "fst (Group_AddHandler group_1_10 3 [[CallRouterSlicesNext]] ?r) = None"
    by (simp add: Group_AddHandler_def AddHandler_def Use_def NewRouterSlices_def Let_def
        group_1_10_def Group_Use_def NewGroup_def)
  have d: "fst (AddHandler 1 [helloHandle] ?r) = None"
    by (simp add: AddHandler_def Use_def NewRouterSlices_def Let_def)
  have rhs: "Handlers ?r @ handlers_g group_1_10 @ [[CallRouterSlicesNext]]
              = [auth, auth, helloHandle, [CallRouterSlicesNext]]"
    and rhs2: "Handlers ?r @ [] @ [helloHandle] = [auth, helloHandle]"
    by (simp_all add: Use_def NewRouterSlices_def group_1_10_def Group_Use_def NewGroup_def)
  have main: "GetHandlers 3 (apply_ops ?ops (snd (Group_AddHandler group_1_10 3 [[CallRouterSlicesNext]] ?r)))
      = (Handlers ?r @ handlers_g group_1_10 @ [[CallRouterSlicesNext]], True)"
    and eq: "Group_AddHandler group_1_10 3 [[CallRouterSlicesNext]] ?r
      = AddHandler 3 (handlers_g group_1_10 @ [[CallRouterSlicesNext]]) ?r"
    using effective_handler_list[of group_1_10 3 "[[CallRouterSlicesNext]]" ?r ?ops] a b c
    by blast+
  have main2: "GetHandlers 1 (apply_ops [OpUse [[]]] (snd (AddHandler 1 [helloHandle] ?r)))
      = (Handlers ?r @ [] @ [helloHandle], True)"
    using effective_handler_list[of group_1_10 1 "[helloHandle]" ?r "[OpUse [[]]]"] d
    by blast
  show ?thesis
    using a b c d main main2 eq by (simp only: rhs rhs2 simp_thms)
qed

section \<open>The decoder on a frame with a wrong CRC\<close>

text \<open>
  C2. On a message of at least \<open>HeaderSize\<close> bytes whose CRC check fails, \<open>Intercept\<close>
  does not report an error and does not call the chain: \<open>decode\<close> returns nil and the
  read of the function code panics with a nil dereference.
\<close>

theorem Intercept_crc_failure_panics:
  assumes "HeaderSize \<le> length (data_m m)"
    and "\<not> CheckCRC (take (length (data_m m) - 2) (data_m m)) (drop (length (data_m m) - 2) (data_m m))"
  shows "Intercept CheckCRC (Some m) = Inl NilPointerDereference"
  using assms by (simp add: Intercept_def decode_def HeaderSize_def Let_def)

theorem Intercept_crc_failure_panics_witness:
  "HeaderSize \<le> length (data_m \<lparr>id_m = 0, data_m = frame_bad_crc\<rparr>)
   \<and> \<not> CheckCRC_050B (take 17 frame_bad_crc) (drop 17 frame_bad_crc)
   \<and> Intercept CheckCRC_050B (Some \<lparr>id_m = 0, data_m = frame_bad_crc\<rparr>) = Inl NilPointerDereference"
proof -
  let ?m = "\<lparr>id_m = 0, data_m = frame_bad_crc\<rparr>"
  have a: "HeaderSize \<le> length (data_m ?m)"
    by (simp add: HeaderSize_def frame_bad_crc_def)
  have l: "length (data_m ?m) - 2 = 17" by (simp add: frame_bad_crc_def)
  have b: "\<not> CheckCRC_050B (take (length (data_m ?m) - 2) (data_m ?m)) (drop (length (data_m ?m) - 2) (data_m ?m))"
    by (simp add: CheckCRC_050B_def frame_bad_crc_def)
  show ?thesis
    using Intercept_crc_failure_panics[of ?m CheckCRC_050B, OF a b] a b unfolding l by simp
qed

section \<open>The place of the decoder in the chain\<close>

lemma Proceed_all:
  "\<forall>i\<in>set (drop p ics). proceeds i \<Longrightarrow> Proceed ics p = drop p ics"
proof (induction ics p rule: Proceed.induct)
  case (1 ics position)
  show ?case
  proof (cases "position < length ics")
    case True
    then have d: "drop position ics = ics ! position # drop (position + 1) ics"
      by (simp add: Cons_nth_drop_Suc)
    with 1 True show ?thesis
      by (subst Proceed.simps) simp
  next
    case False
    then show ?thesis by (subst Proceed.simps) simp
  qed
qed

lemma Proceed_first:
  "ics \<noteq> [] \<Longrightarrow> hd (Proceed ics 0) = hd ics"
  by (subst Proceed.simps) (simp add: hd_conv_nth)

lemma fold_AddInterceptor_body:
  "builder mh = Some b \<Longrightarrow>
     builder (fold MsgHandle_AddInterceptor us mh) = Some (b\<lparr>body := body b @ us\<rparr>)"
  by (induction us arbitrary: mh b) (auto simp: MsgHandle_AddInterceptor_def chainBuilder_AddInterceptor_def)

lemma fold_Server_AddInterceptor:
  "fold Server_AddInterceptor us s = s\<lparr>msgHandler := fold MsgHandle_AddInterceptor us (msgHandler s)\<rparr>"
  by (induction us arbitrary: s) (auto simp: Server_AddInterceptor_def)

lemma newMsgHandle_builder:
  "builder (snd (newMsgHandle cfg)) = Some \<lparr>body = [], head = None, tail = Some Dispatcher\<rparr>"
  by (simp add: newMsgHandle_def Let_def Tail_def newChainBuilder_def)

lemma started_builder:
  "builder (msgHandler (started cfg d us vs))
     = Some \<lparr>body = us @ [d] @ vs, head = None, tail = Some Dispatcher\<rparr>"
proof -
  let ?s0 = "SetDecoder (Some d) (snd (newServerWithConfig cfg))"
  have b0: "builder (msgHandler ?s0) = Some \<lparr>body = [], head = None, tail = Some Dispatcher\<rparr>"
    using newMsgHandle_builder[of cfg]
    by (simp add: SetDecoder_def newServerWithConfig_def split_def Let_def)
  have d0: "decoder (fold Server_AddInterceptor us ?s0) = Some d"
    by (simp add: fold_Server_AddInterceptor SetDecoder_def)
  have b1: "builder (msgHandler (fold Server_AddInterceptor us ?s0))
              = Some \<lparr>body = us, head = None, tail = Some Dispatcher\<rparr>"
    using fold_AddInterceptor_body[OF b0, of us] by (simp add: fold_Server_AddInterceptor)
  have b2: "builder (msgHandler (Start (fold Server_AddInterceptor us ?s0)))
              = Some \<lparr>body = us @ [d], head = None, tail = Some Dispatcher\<rparr>"
    using b1 d0 by (simp add: Start_def MsgHandle_AddInterceptor_def chainBuilder_AddInterceptor_def)
  show ?thesis
    using fold_AddInterceptor_body[OF b2, of vs]
    by (simp add: started_def fold_Server_AddInterceptor)
qed

lemma interceptors_started:
  "map_option interceptors (builder (msgHandler (started cfg d us vs)))
     = Some (us @ [d] @ vs @ [Dispatcher])"
  by (simp add: started_builder interceptors_def)

text \<open>
  C1. \<open>Execute\<close> on a started server runs the chain of the user interceptors added
  before the start, the decoder, the user interceptors added after the start, and the
  dispatcher, from its first element; all of them are invoked, in this order, when
  each calls \<open>Proceed\<close>. The decoder is invoked first when no user interceptor was
  added before the start.
\<close>

theorem decoder_position_in_chain:
  "MsgHandle_Execute (msgHandler (started cfg d us vs))
     = Inr (Proceed (us @ [d] @ vs @ [Dispatcher]) 0)
   \<and> hd (Proceed (us @ [d] @ vs @ [Dispatcher]) 0) = hd (us @ [d])
   \<and> ((\<forall>i \<in> set (us @ [d] @ vs). proceeds i) \<longrightarrow>
        Proceed (us @ [d] @ vs @ [Dispatcher]) 0 = us @ [d] @ vs @ [Dispatcher])
   \<and> (us = [] \<longrightarrow> hd (Proceed (us @ [d] @ vs @ [Dispatcher]) 0) = d)"
proof -
  have e: "MsgHandle_Execute (msgHandler (started cfg d us vs))
     = Inr (Proceed (us @ [d] @ vs @ [Dispatcher]) 0)"
    by (simp add: MsgHandle_Execute_def started_builder chainBuilder_Execute_def interceptors_def)
  have h: "hd (Proceed (us @ [d] @ vs @ [Dispatcher]) 0) = hd (us @ [d])"
    using Proceed_first[of "us @ [d] @ vs @ [Dispatcher]"] by (cases us) simp_all
  have a: "Proceed (us @ [d] @ vs @ [Dispatcher]) 0 = us @ [d] @ vs @ [Dispatcher]"
    if "\<forall>i \<in> set (us @ [d] @ vs). proceeds i"
    using Proceed_all[of 0 "us @ [d] @ vs @ [Dispatcher]"] that by auto
  show ?thesis using e h a by auto
qed


text \<open>
  With an interceptor added before the start, that interceptor is invoked before the
  decoder.
\<close>

theorem decoder_first_counterexample:
  "MsgHandle_Execute
     (msgHandler (Start (Server_AddInterceptor logger (snd (newServerWithConfig cfg_hash4)))))
     = Inr [logger, Decoder ''TLV'' True, Dispatcher]
   \<and> logger \<noteq> Decoder ''TLV'' True"
  by (simp add: MsgHandle_Execute_def Start_def Server_AddInterceptor_def newServerWithConfig_def
      newMsgHandle_def Let_def split_def MsgHandle_AddInterceptor_def chainBuilder_AddInterceptor_def
      chainBuilder_Execute_def interceptors_def Tail_def newChainBuilder_def Proceed.simps logger_def
      cfg_hash4_def WorkerModeHash_def WorkerModeBind_def)

theorem decoder_position_in_chain_witness:
  "MsgHandle_Execute (msgHandler (started cfg_hash4 tlv [logger] [UserInterceptor ''late'' False]))
     = Inr [logger, tlv, UserInterceptor ''late'' False]
   \<and> MsgHandle_Execute (msgHandler (started cfg_hash4 tlv [] [logger]))
     = Inr [tlv, logger, Dispatcher]"
proof -
  have p1: "Proceed [logger, tlv, UserInterceptor ''late'' False, Dispatcher] 0
              = [logger, tlv, UserInterceptor ''late'' False]"
    by (simp add: Proceed.simps logger_def tlv_def)
  have p2: "\<forall>i \<in> set ([] @ [tlv] @ [logger]). proceeds i"
    by (simp add: logger_def tlv_def)
  show ?thesis
    using decoder_position_in_chain[of cfg_hash4 tlv "[logger]" "[UserInterceptor ''late'' False]"]
      decoder_position_in_chain[of cfg_hash4 tlv "[]" "[logger]"] p2
    by (simp add: p1)
qed

section \<open>The three phases of the classic router\<close>

lemma invoked_append [simp]: "invoked (xs @ ys) = invoked xs @ invoked ys"
  by (induction xs rule: invoked.induct) auto

lemma printed_append [simp]: "printed (xs @ ys) = printed xs @ printed ys"
  by (induction xs rule: printed.induct) auto

lemma loop_no_handlers:
  "handlers (req e) = [] \<Longrightarrow>
     RouterSlicesNext_loop (Suc n) cfg e =
       (if sint (index (req e)) < 0
        then e\<lparr>flow := Panicking (IndexOutOfRange (sint (index (req e))) 0)\<rparr> else e)"
  by (simp add: Let_def)









lemma call_handler_prints:
  "only_prints ss \<Longrightarrow> flow e = Normal \<Longrightarrow>
     call_handler n cfg ss e = e\<lparr>events := events e @ map Printed (lines_of ss)\<rparr>"
proof (induction ss arbitrary: e)
  case Nil
  then show ?case by simp
next
  case (Cons s ss)
  then obtain str where s: "s = Println str" by (auto simp: only_prints_def)
  have op: "only_prints ss" using Cons.prems(1) by (simp add: only_prints_def)
  show ?case
    using Cons.IH[OF op, of "emit (Printed str) e"] Cons.prems(2)
    by (simp add: s emit_def)
qed

lemma only_prints_no_jump: "only_prints ss \<Longrightarrow> no_jump ss \<and> no_reentry ss"
  by (auto simp: only_prints_def no_jump_def no_reentry_def)









section \<open>The cursor after Call\<close>

lemma grows_refl: "grows e e" by (simp add: grows_def)

lemma grows_trans: "grows a b \<Longrightarrow> grows b c \<Longrightarrow> grows a c"
  by (auto simp: grows_def)

lemma grows_request_call: "grows e (request_call cfg s e)"
  by (cases s) (auto simp: grows_def emit_def Abort_def Goto_def SetResponse_def)

lemma grows_emit: "grows e (emit ev e)"
  by (simp add: grows_def emit_def)

lemma grows_run:
  "grows e (RouterSlicesNext_loop n cfg e)"
  "grows e (Call_loop n cfg e)"
  "grows e (Call n cfg e)"
  "grows e (call_handler n cfg ss e)"
proof (induction n cfg e and n cfg e and n cfg e and n cfg ss e
    rule: RouterSlicesNext_loop_Call_loop_Call_call_handler.induct)
  case (1 cfg e)
  then show ?case by (simp add: grows_def)
next
  case (2 n cfg e)
  let ?i = "sint (index (req e))" and ?hs = "handlers (req e)"
  show ?case
  proof (cases "?i < sint (word_of_nat (length ?hs) :: 8 word) \<and> \<not> (?i < 0 \<or> int (length ?hs) \<le> ?i)")
    case False
    then show ?thesis by (auto simp: Let_def grows_def)
  next
    case True
    let ?e0 = "emit (Invoked (SliceHandler (nat ?i))) e"
    let ?e1 = "call_handler n cfg (?hs ! nat ?i) ?e0"
    have g0: "grows e ?e0" by (rule grows_emit)
    have g1: "grows ?e0 ?e1" using "2.IH"(1)[OF refl refl] True by simp
    show ?thesis
    proof (cases "flow ?e1 = Normal")
      case False
      then show ?thesis using True grows_trans[OF g0 g1] by (simp add: Let_def)
    next
      case fl: True
      have g2: "grows (index_inc ?e1) (RouterSlicesNext_loop n cfg (index_inc ?e1))"
        using "2.IH"(2)[OF refl refl _ _ refl] True fl by simp
      have g3: "grows ?e1 (index_inc ?e1)" by (simp add: grows_def index_inc_def)
      show ?thesis
        using True fl grows_trans[OF grows_trans[OF g0 g1] grows_trans[OF g3 g2]]
        by (simp add: Let_def)
    qed
  qed
next
  case (3 cfg e)
  then show ?case by (simp add: grows_def)
next
  case (4 n cfg e)
  show ?case
  proof (cases "steps (req e) < HandleOver")
    case False
    then show ?thesis by (simp add: grows_refl)
  next
    case lt: True
    show ?thesis
    proof (cases "router (req e)")
      case None
      then show ?thesis using lt by (simp add: grows_def)
    next
      case (Some rt)
      define e1 where "e1 =
        (if steps (req e) = PreHandle then
           call_handler n cfg (PreHandle_m rt) (emit (Invoked RouterPreHandle) e)
         else if steps (req e) = Handle then
           call_handler n cfg (Handle_m rt) (emit (Invoked RouterHandle) e)
         else if steps (req e) = PostHandle then
           call_handler n cfg (PostHandle_m rt) (emit (Invoked RouterPostHandle) e)
         else e)"
      have ge: "grows e e1"
      proof (cases "steps (req e) = PreHandle")
        case True
        then show ?thesis
          using grows_trans[OF grows_emit "4.IH"(1)[OF lt Some True]] by (simp add: e1_def)
      next
        case np: False
        show ?thesis
        proof (cases "steps (req e) = Handle")
          case True
          then show ?thesis
            using grows_trans[OF grows_emit "4.IH"(2)[OF lt Some np True]] np
            by (simp add: e1_def)
        next
          case nh: False
          show ?thesis
          proof (cases "steps (req e) = PostHandle")
            case True
            then show ?thesis
              using grows_trans[OF grows_emit "4.IH"(3)[OF lt Some np nh True]] np nh
              by (simp add: e1_def)
          next
            case False
            then show ?thesis using np nh by (simp add: e1_def grows_refl)
          qed
        qed
      qed
      have res: "Call_loop (Suc n) cfg e =
              (if flow e1 \<noteq> Normal then e1 else Call_loop n cfg (e1\<lparr>req := next_step (req e1)\<rparr>))"
        using lt Some by (simp add: e1_def Let_def)
      show ?thesis
      proof (cases "flow e1 = Normal")
        case False
        then show ?thesis using ge res by simp
      next
        case True
        have nx: "grows e1 (e1\<lparr>req := next_step (req e1)\<rparr>)"
          by (simp add: grows_def next_step_def)
        have "grows (e1\<lparr>req := next_step (req e1)\<rparr>)
                (Call_loop n cfg (e1\<lparr>req := next_step (req e1)\<rparr>))"
          using "4.IH"(4)[OF lt Some e1_def] True by simp
        then show ?thesis
          using grows_trans[OF ge grows_trans[OF nx]] res True by simp
      qed
    qed
  qed
next
  case (5 n cfg e)
  show ?case
  proof (cases "router (req e)")
    case None
    then show ?thesis by (simp add: Call.simps grows_refl)
  next
    case (Some rt)
    have g: "grows e (Call_loop n cfg e)" by (rule "5.IH"[OF Some])
    have "grows (Call_loop n cfg e)
            ((Call_loop n cfg e)\<lparr>req := (req (Call_loop n cfg e))\<lparr>steps := PreHandle\<rparr>\<rparr>)"
      by (simp add: grows_def)
    then show ?thesis
      using Some g grows_trans[OF g] by (simp add: Call.simps Let_def)
  qed
next
  case (6 n cfg e)
  then show ?case by (simp add: grows_refl)
next
  case (7 n cfg s ss e)
  show ?case
  proof (cases "s = ReturnIfResponse \<and> GetResponse (req e) \<noteq> None")
    case True
    then show ?thesis by (simp add: grows_refl)
  next
    case nr: False
    define e1 where "e1 =
      (if s = CallRouterSlicesNext then RouterSlicesNext_loop n cfg (index_inc e)
       else if s = CallCall then Call n cfg e else request_call cfg s e)"
    have res: "call_handler n cfg (s # ss) e
                 = (if flow e1 \<noteq> Normal then e1 else call_handler n cfg ss e1)"
      using nr by (auto simp: e1_def Let_def)
    have g0: "grows e (index_inc e)" by (simp add: grows_def index_inc_def)
    have g1: "grows e e1"
    proof (cases "s = CallRouterSlicesNext")
      case True
      then show ?thesis using grows_trans[OF g0 "7.IH"(1)[OF nr True]] by (simp add: e1_def)
    next
      case ns: False
      show ?thesis
      proof (cases "s = CallCall")
        case True
        then show ?thesis using "7.IH"(2)[OF nr ns True] ns by (simp add: e1_def)
      next
        case False
        then show ?thesis using grows_request_call[of e cfg s] ns by (simp add: e1_def)
      qed
    qed
    show ?thesis
    proof (cases "flow e1 = Normal")
      case False
      then show ?thesis using g1 res by simp
    next
      case True
      have "grows e1 (call_handler n cfg ss e1)"
        using "7.IH"(3)[OF nr e1_def] True by simp
      then show ?thesis using grows_trans[OF g1] res True by simp
    qed
  qed
qed

text \<open>
  C10. When \<open>Call\<close> returns on a request that has a router, the cursor is
  \<open>PreHandle\<close> again, whatever \<^verbatim>\<open>Goto\<close> and \<^verbatim>\<open>Abort\<close> did during the run, and the next
  \<open>Call\<close> on the request enters PreHandle first.
\<close>

theorem Call_resets_cursor:
  "router (req e) \<noteq> None \<and> flow (Call n cfg e) = Normal \<longrightarrow>
     steps (req (Call n cfg e)) = PreHandle
     \<and> (\<exists>evs. events (Call (Suc k) cfg (Call n cfg e))
                = events (Call n cfg e) @ Invoked RouterPreHandle # evs)"
proof (intro impI, elim conjE)
  assume r: "router (req e) \<noteq> None" and fl: "flow (Call n cfg e) = Normal"
  then obtain rt where rt: "router (req e) = Some rt" by auto
  let ?e1 = "Call_loop n cfg e"
  have fl1: "flow ?e1 = Normal"
    using fl rt by (auto simp: Call.simps Let_def split: if_splits)
  have c: "Call n cfg e = ?e1\<lparr>req := (req ?e1)\<lparr>steps := PreHandle\<rparr>\<rparr>"
    using fl1 rt by (simp add: Call.simps Let_def)
  let ?e2 = "Call n cfg e"
  have st: "steps (req ?e2) = PreHandle" by (simp add: c)
  have r2: "router (req ?e2) = Some rt"
    using grows_run(2)[of e n cfg] rt by (simp add: c grows_def)
  let ?e3 = "call_handler k cfg (PreHandle_m rt) (emit (Invoked RouterPreHandle) ?e2)"
  have g3: "\<exists>evs. events ?e3 = events ?e2 @ Invoked RouterPreHandle # evs"
    using grows_run(4)[of "emit (Invoked RouterPreHandle) ?e2" k cfg "PreHandle_m rt"]
    by (auto simp: grows_def emit_def)
  have l: "Call_loop (Suc k) cfg ?e2 =
             (if flow ?e3 \<noteq> Normal then ?e3 else Call_loop k cfg (?e3\<lparr>req := next_step (req ?e3)\<rparr>))"
    using st r2 by (simp add: Let_def PreHandle_def HandleOver_def)
  have g4: "\<exists>evs. events (Call_loop (Suc k) cfg ?e2) = events ?e3 @ evs"
    unfolding l using grows_run(2)[of "?e3\<lparr>req := next_step (req ?e3)\<rparr>" k cfg]
    by (auto simp: grows_def)
  have g5: "\<exists>evs. events (Call (Suc k) cfg ?e2) = events (Call_loop (Suc k) cfg ?e2) @ evs"
    using r2 by (simp add: Call.simps Let_def del: RouterSlicesNext_loop.simps Call_loop.simps call_handler.simps)
  show "steps (req ?e2) = PreHandle
     \<and> (\<exists>evs. events (Call (Suc k) cfg ?e2) = events ?e2 @ Invoked RouterPreHandle # evs)"
    using st g3 g4 g5 by (metis append.assoc append_Cons)
qed

text \<open>
  Without a router \<open>Call\<close> returns at once and leaves the cursor where it was: here at
  \<open>HandleOver\<close>, after an \<^verbatim>\<open>Abort\<close> on the request.
\<close>

theorem Call_resets_cursor_counterexample:
  "flow (Call 5 cfg_classic (fresh (Abort cfg_classic request1))) = Normal
   \<and> steps (req (Call 5 cfg_classic (fresh (Abort cfg_classic request1)))) = HandleOver
   \<and> HandleOver \<noteq> PreHandle"
  by (simp add: Call.simps fresh_def Abort_def cfg_classic_def request1_def NewRequest_def
      HandleOver_def PreHandle_def)

theorem Call_resets_cursor_witness:
  "router (req (fresh (BindRouter (Some jump_router) request1))) \<noteq> None
   \<and> flow (Call 3 cfg_classic (fresh (BindRouter (Some jump_router) request1))) = Normal
   \<and> printed (events (Call 3 cfg_classic (fresh (BindRouter (Some jump_router) request1))))
       = [''P'', ''Po'']
   \<and> steps (req (Call 3 cfg_classic (fresh (BindRouter (Some jump_router) request1)))) = PreHandle"
proof -
  let ?e = "fresh (BindRouter (Some jump_router) request1)"
  have a: "router (req ?e) \<noteq> None" by (simp add: fresh_def BindRouter_def)
  have b: "flow (Call 3 cfg_classic ?e) = Normal"
    and c: "printed (events (Call 3 cfg_classic ?e)) = [''P'', ''Po'']"
    by (simp_all add: Call.simps fresh_def BindRouter_def request1_def NewRequest_def jump_router_def
        cfg_classic_def Let_def emit_def next_step_def Goto_def Abort_def eval_nat_numeral
        PreHandle_def Handle_def PostHandle_def HandleOver_def)
  show ?thesis
    using Call_resets_cursor[of ?e 3 cfg_classic 0] a b c by blast
qed

section \<open>A panic in a handler\<close>

lemma recover_flow: "flow (recover who wid e) \<noteq> Panicking p"
  by (simp add: recover_def emit_def split: flow.splits)

lemma recover_panic:
  "flow e = Panicking p \<Longrightarrow>
     events (recover who wid e) = events e @ [ErrorF_panic who wid p]
     \<and> flow (recover who wid e) = Normal"
  by (simp add: recover_def emit_def)

lemma doFuncHandler_flow: "snd (doFuncHandler rf wid evs) \<noteq> Panicking p"
  by (simp add: doFuncHandler_def split: prod.splits flow.splits)

lemma serve_flow: "snd (serve n cfg mh wid t evs) \<noteq> Panicking p"
  by (cases t) (simp_all add: serve_def doFuncHandler_flow doMsgHandler_def doMsgHandlerSlices_def
      recover_flow Let_def)

lemma serve_panic:
  assumes "snd (handler_outcome n cfg mh t evs) = Panicking p"
  shows "serve n cfg mh wid t evs
           = (fst (handler_outcome n cfg mh t evs) @ [ErrorF_panic (logged_as t) wid p], Normal)"
proof (cases t)
  case (FuncTask rf)
  then show ?thesis
    using assms
    by (cases "CallFunc rf evs") (simp add: serve_def handler_outcome_def doFuncHandler_def logged_as_def)
next
  case (MsgTask r)
  then show ?thesis
    using assms
    by (simp add: serve_def handler_outcome_def logged_as_def doMsgHandler_def
        doMsgHandlerSlices_def recover_panic Let_def split: if_splits)
qed

lemma StartOneWorker_flow: "snd (StartOneWorker n cfg mh wid taskQueue evs) \<noteq> Panicking p"
proof (induction taskQueue arbitrary: evs)
  case Nil
  then show ?case by simp
next
  case (Cons t taskQueue)
  show ?case
    using serve_flow[of n cfg mh wid t evs p] Cons.IH
    by (simp add: split_def Let_def)
qed

text \<open>
  C9. No panic leaves \<open>doMsgHandler\<close>, \<open>doMsgHandlerSlices\<close> or \<open>doFuncHandler\<close>, so
  the worker is never ended by one. When the handler of a queued request panics, the
  panic is logged with the worker-id, and the worker goes on with the rest of its
  queue.
\<close>

theorem worker_survives_panic:
  "snd (StartOneWorker n cfg mh wid taskQueue evs) \<noteq> Panicking q
   \<and> (snd (handler_outcome n cfg mh t evs) = Panicking p \<longrightarrow>
        serve n cfg mh wid t evs
          = (fst (handler_outcome n cfg mh t evs) @ [ErrorF_panic (logged_as t) wid p], Normal)
        \<and> StartOneWorker n cfg mh wid (t # taskQueue) evs
          = StartOneWorker n cfg mh wid taskQueue
              (fst (handler_outcome n cfg mh t evs) @ [ErrorF_panic (logged_as t) wid p]))"
  using StartOneWorker_flow[of n cfg mh wid taskQueue evs q] serve_panic[of n cfg mh t evs p wid]
  by simp


text \<open>
  A handler panics on the first request of the queue; the second request is served.
\<close>

theorem worker_survives_panic_witness:
  "snd (handler_outcome 3 cfg_hash4 mh_slices2 (MsgTask request1) []) = Panicking (UserPanic ''boom'')
   \<and> StartOneWorker 3 cfg_hash4 mh_slices2 1 [MsgTask request1, MsgTask request2] []
      = ([Invoked (SliceHandler 0), Printed ''before'',
          ErrorF_panic ''doMsgHandler'' 1 (UserPanic ''boom''),
          Invoked (SliceHandler 0), Printed ''receive from client''], Normal)"
proof -
  have h: "handler_outcome 3 cfg_hash4 mh_slices2 (MsgTask request1) []
             = ([Invoked (SliceHandler 0), Printed ''before''], Panicking (UserPanic ''boom''))"
    by (simp add: handler_outcome_def cfg_hash4_def doMsgHandlerSlices_body_def mh_slices2_def
        AddRouterSlices_def AddHandler_def mh_hash4_def newMsgHandle_def NewRouterSlices_def
        Apis_at_def GetHandlers_def GetMsgID_def request1_def NewRequest_def BindRouterSlices_def
        RouterSlicesNext_def index_inc_def emit_def panic_handler_def helloHandle_def Let_def
        WorkerModeHash_def WorkerModeBind_def eval_nat_numeral)
  have r: "StartOneWorker 3 cfg_hash4 mh_slices2 1 [MsgTask request2]
             [Invoked (SliceHandler 0), Printed ''before'',
              ErrorF_panic ''doMsgHandler'' 1 (UserPanic ''boom'')]
           = ([Invoked (SliceHandler 0), Printed ''before'',
               ErrorF_panic ''doMsgHandler'' 1 (UserPanic ''boom''),
               Invoked (SliceHandler 0), Printed ''receive from client''], Normal)"
    by (simp add: serve_def doMsgHandlerSlices_def recover_def cfg_hash4_def doMsgHandlerSlices_body_def mh_slices2_def
        AddRouterSlices_def AddHandler_def mh_hash4_def newMsgHandle_def NewRouterSlices_def
        Apis_at_def GetHandlers_def GetMsgID_def request2_def NewRequest_def BindRouterSlices_def
        RouterSlicesNext_def index_inc_def emit_def panic_handler_def helloHandle_def Let_def
        WorkerModeHash_def WorkerModeBind_def eval_nat_numeral)
  show ?thesis
    using worker_survives_panic[of 3 cfg_hash4 mh_slices2 1 "[MsgTask request2]" "[]" _
        "MsgTask request1" "UserPanic ''boom''"] h r
    by (simp add: logged_as_def)
qed

section \<open>The order of the handlers of a slices route, and Abort\<close>

lemma slice_calls_append [simp]: "slice_calls (xs @ ys) = slice_calls xs @ slice_calls ys"
  by (induction xs rule: slice_calls.induct) auto

lemma after_abort_append:
  "after_abort (xs @ ys) = (if AbortCalled \<in> set xs then after_abort xs @ ys else after_abort ys)"
  by (induction xs rule: after_abort.induct) auto

lemma slice_calls_after_abort: "slice_calls xs = [] \<Longrightarrow> slice_calls (after_abort xs) = []"
  by (induction xs rule: after_abort.induct) (auto split: if_splits elim: slice_calls.elims)

lemma sint8_bounds: "- 128 \<le> sint (w :: 8 word)" "sint (w :: 8 word) \<le> 127"
  using sint_ge[of w] sint_lt[of w] by simp_all

lemma sint8_inc: "sint (w + 1 :: 8 word) = (if sint w = 127 then - 128 else sint w + 1)"
proof -
  have "sint (w + 1) = signed_take_bit 7 (sint w + 1)"
    by (simp add: sint_word_ariths)
  also have "\<dots> = (if sint w = 127 then - 128 else sint w + 1)"
    using sint8_bounds[of w] by (auto simp: signed_take_bit_int_eq_self_iff)
  finally show ?thesis .
qed


lemma run_ok_seq:
  assumes 1: "run_ok lo e e1" and fl: "flow e1 = Normal" and 2: "run_ok lo' e1 e'"
    and lo: "index (req e1) = index (req e) \<Longrightarrow> lo \<le> lo'"
  shows "run_ok lo e e'"
proof -
  from 1 fl obtain evs1 where a:
    "handlers (req e1) = handlers (req e)" "events e1 = events e @ evs1"
    "slice_calls (after_abort evs1) = []" "sorted_wrt (<) (slice_calls evs1)"
    "\<forall>i \<in> set (slice_calls evs1). lo \<le> int i \<and> int i < n8 e"
    "finished e \<or> idx e < 0 \<longrightarrow> slice_calls evs1 = []"
    "finished e1 \<or>
       (index (req e1) = index (req e) \<and> slice_calls evs1 = [] \<and> AbortCalled \<notin> set evs1)"
    unfolding run_ok_def by blast
  from 2 obtain evs2 where b:
    "handlers (req e') = handlers (req e1)" "events e' = events e1 @ evs2"
    "slice_calls (after_abort evs2) = []" "sorted_wrt (<) (slice_calls evs2)"
    "\<forall>i \<in> set (slice_calls evs2). lo' \<le> int i \<and> int i < n8 e1"
    "finished e1 \<or> idx e1 < 0 \<longrightarrow> slice_calls evs2 = []"
    "flow e' = Normal \<longrightarrow> finished e' \<or>
       (index (req e') = index (req e1) \<and> slice_calls evs2 = [] \<and> AbortCalled \<notin> set evs2)"
    unfolding run_ok_def by blast
  have n: "n8 e1 = n8 e" "n8 e' = n8 e" using a(1) b(1) by (simp_all add: n8_def)
  have ev: "events e' = events e @ (evs1 @ evs2)" using a(2) b(2) by simp
  show ?thesis
  proof (cases "finished e1")
    case True
    then have c2: "slice_calls evs2 = []" using b(6) by simp
    have p1: "slice_calls (after_abort (evs1 @ evs2)) = []"
      using a(3) b(3) c2 by (simp add: after_abort_append)
    have p5: "flow e' = Normal \<longrightarrow> finished e' \<or>
       (index (req e') = index (req e) \<and> slice_calls (evs1 @ evs2) = []
        \<and> AbortCalled \<notin> set (evs1 @ evs2))"
      using b(7) True n by (auto simp: finished_def idx_def)
    show ?thesis
      unfolding run_ok_def
      using a(1) b(1) ev p1 p5 a(4) a(5) a(6) c2
      by (intro conjI exI[of _ "evs1 @ evs2"]) simp_all
  next
    case False
    then have s: "index (req e1) = index (req e)" "slice_calls evs1 = []" "AbortCalled \<notin> set evs1"
      using a(7) by simp_all
    have f: "finished e1 = finished e" "idx e1 = idx e"
      using s(1) n by (simp_all add: finished_def idx_def)
    have p1: "slice_calls (after_abort (evs1 @ evs2)) = []"
      using b(3) s(3) by (simp add: after_abort_append)
    have p3: "\<forall>i \<in> set (slice_calls (evs1 @ evs2)). lo \<le> int i \<and> int i < n8 e"
      using b(5) s(2) lo[OF s(1)] n by auto
    have p4: "finished e \<or> idx e < 0 \<longrightarrow> slice_calls (evs1 @ evs2) = []"
      using b(6) s(2) f by simp
    have p5: "flow e' = Normal \<longrightarrow> finished e' \<or>
       (index (req e') = index (req e) \<and> slice_calls (evs1 @ evs2) = []
        \<and> AbortCalled \<notin> set (evs1 @ evs2))"
      using b(7) s by auto
    show ?thesis
      unfolding run_ok_def
      using a(1) b(1) ev p1 p3 p4 p5 b(4) s(2)
      by (intro conjI exI[of _ "evs1 @ evs2"]) simp_all
  qed
qed

lemma run_ok_request_call:
  assumes "RouterSlicesMode cfg" and "s \<noteq> CallRouterSlicesNext"
  shows "run_ok lo e (request_call cfg s e)"
proof (cases s)
  case CallRouterSlicesNext
  then show ?thesis using assms(2) by simp
next
  case CallAbort
  then show ?thesis
    using assms(1)
    by (auto simp: run_ok_def Abort_def emit_def finished_def n8_def idx_def)
next
  case (CallGoto k)
  then show ?thesis by (simp add: run_ok_def Goto_def)
next
  case CallCall
  then show ?thesis by (simp add: run_ok_def)
next
  case (CallSetResponse v)
  then show ?thesis by (simp add: run_ok_def SetResponse_def)
next
  case ReturnIfResponse
  then show ?thesis by (simp add: run_ok_def)
next
  case (Println str)
  then show ?thesis by (simp add: run_ok_def emit_def)
next
  case (Panic v)
  then show ?thesis by (simp add: run_ok_def)
qed

lemma run_ok_refl: "run_ok lo e e"
  by (simp add: run_ok_def)

lemma run_ok_halt: "fl \<noteq> Normal \<Longrightarrow> run_ok lo e (e\<lparr>flow := fl\<rparr>)"
  by (simp add: run_ok_def)

lemma index_inc_facts:
  "handlers (req (index_inc e)) = handlers (req e)"
  "events (index_inc e) = events e"
  "n8 (index_inc e) = n8 e"
  "idx (index_inc e) = (if idx e = 127 then - 128 else idx e + 1)"
  by (simp_all add: index_inc_def n8_def idx_def sint8_inc)

lemma n8_le_127: "n8 e \<le> 127"
  by (simp add: n8_def sint8_bounds)

lemma run_ok_inc:
  assumes pre: "finished e \<or> 0 \<le> idx e"
    and 1: "run_ok (idx (index_inc e)) (index_inc e) e1"
    and 2: "flow e1 = Normal \<longrightarrow> finished e1"
  shows "run_ok (idx e + 1) e e1"
proof -
  from 1 obtain evs where a:
    "handlers (req e1) = handlers (req e)" "events e1 = events e @ evs"
    "slice_calls (after_abort evs) = []" "sorted_wrt (<) (slice_calls evs)"
    "\<forall>i \<in> set (slice_calls evs). idx (index_inc e) \<le> int i \<and> int i < n8 e"
    "finished (index_inc e) \<or> idx (index_inc e) < 0 \<longrightarrow> slice_calls evs = []"
    unfolding run_ok_def index_inc_facts by blast
  have w: "idx e = 127 \<Longrightarrow> slice_calls evs = []"
    using a(6) by (simp add: index_inc_facts)
  have p3: "\<forall>i \<in> set (slice_calls evs). idx e + 1 \<le> int i \<and> int i < n8 e"
  proof (cases "idx e = 127")
    case True
    then show ?thesis using w by simp
  next
    case False
    then show ?thesis using a(5) by (simp add: index_inc_facts)
  qed
  have p4: "finished e \<or> idx e < 0 \<longrightarrow> slice_calls evs = []"
  proof (cases "idx e = 127")
    case True
    then show ?thesis using w by simp
  next
    case False
    then show ?thesis
      using a(6) pre by (auto simp: index_inc_facts finished_def)
  qed
  show ?thesis
    unfolding run_ok_def
    using a(1,2,3,4) p3 p4 2
    by (intro conjI exI[of _ evs]) simp_all
qed

lemma loop_invoke_ok:
  assumes v: "0 \<le> idx e" "idx e < n8 e"
    and 1: "run_ok (idx e + 1) (emit (Invoked (SliceHandler (nat (idx e)))) e) e1"
    and 2: "flow e1 = Normal \<Longrightarrow>
              run_ok (idx (index_inc e1)) (index_inc e1) e2 \<and> (flow e2 = Normal \<longrightarrow> finished e2)"
    and r: "res = (if flow e1 \<noteq> Normal then e1 else e2)"
  shows "run_ok (idx e) e res \<and> (flow res = Normal \<longrightarrow> finished res)"
proof -
  let ?e0 = "emit (Invoked (SliceHandler (nat (idx e)))) e"
  have e0: "handlers (req ?e0) = handlers (req e)" "n8 ?e0 = n8 e" "idx ?e0 = idx e"
    "events ?e0 = events e @ [Invoked (SliceHandler (nat (idx e)))]"
    "index (req ?e0) = index (req e)"
    by (simp_all add: emit_def n8_def idx_def)
  from 1 obtain evs1 where a:
    "handlers (req e1) = handlers (req e)"
    "events e1 = events e @ Invoked (SliceHandler (nat (idx e))) # evs1"
    "slice_calls (after_abort evs1) = []" "sorted_wrt (<) (slice_calls evs1)"
    "\<forall>i \<in> set (slice_calls evs1). idx e + 1 \<le> int i \<and> int i < n8 e"
    "flow e1 = Normal \<longrightarrow> finished e1 \<or>
       (index (req e1) = index (req e) \<and> slice_calls evs1 = [] \<and> AbortCalled \<notin> set evs1)"
    unfolding run_ok_def e0 by auto
  have nf: "\<not> (finished e \<or> idx e < 0)" using v by (simp add: finished_def)
  have gt: "\<forall>i \<in> set (slice_calls evs1). nat (idx e) < i"
    using a(5) v(1) by auto
  show ?thesis
  proof (cases "flow e1 = Normal")
    case False
    then have res: "res = e1" using r by simp
    have "run_ok (idx e) e e1"
      unfolding run_ok_def
      using a(1,2,3,4,5) gt nf False v
      by (intro conjI exI[of _ "Invoked (SliceHandler (nat (idx e))) # evs1"]) auto
    then show ?thesis using res False by simp
  next
    case True
    then have res: "res = e2" using r by simp
    from 2[OF True] obtain evs2 where b:
      "handlers (req e2) = handlers (req e1)" "events e2 = events e1 @ evs2"
      "slice_calls (after_abort evs2) = []" "sorted_wrt (<) (slice_calls evs2)"
      "\<forall>i \<in> set (slice_calls evs2). idx (index_inc e1) \<le> int i \<and> int i < n8 e1"
      "finished (index_inc e1) \<or> idx (index_inc e1) < 0 \<longrightarrow> slice_calls evs2 = []"
      "flow e2 = Normal \<longrightarrow> finished e2"
      unfolding run_ok_def index_inc_facts by blast
    have n: "n8 e1 = n8 e" using a(1) by (simp add: n8_def)
    let ?evs = "Invoked (SliceHandler (nat (idx e))) # evs1 @ evs2"
    have ev: "events e2 = events e @ ?evs" using a(2) b(2) by simp
    have parts: "slice_calls (after_abort (evs1 @ evs2)) = []
       \<and> sorted_wrt (<) (slice_calls evs1 @ slice_calls evs2)
       \<and> (\<forall>i \<in> set (slice_calls evs2). nat (idx e) < i \<and> int i < n8 e)"
    proof (cases "finished e1")
      case fin: True
      have "finished (index_inc e1) \<or> idx (index_inc e1) < 0"
        using fin n8_le_127[of e1] by (auto simp: index_inc_facts finished_def)
      then have c2: "slice_calls evs2 = []" using b(6) by simp
      show ?thesis
        using a(3,4) b(3) c2 by (simp add: after_abort_append)
    next
      case False
      then have s: "index (req e1) = index (req e)" "slice_calls evs1 = []"
        "AbortCalled \<notin> set evs1"
        using a(6) True by simp_all
      have i1: "idx e1 = idx e" using s(1) by (simp add: idx_def)
      have "idx e \<noteq> 127" using v(2) n8_le_127[of e] by simp
      then have lo: "idx (index_inc e1) = idx e + 1" by (simp add: index_inc_facts i1)
      show ?thesis
        using b(3,4,5) s lo n v(1) by (auto simp: after_abort_append)
    qed
    have "run_ok (idx e) e e2"
      unfolding run_ok_def
      using a(1) b(1) ev parts a(5) gt nf v b(7)
      by (intro conjI exI[of _ ?evs]) (auto simp: sorted_wrt_append)
    then show ?thesis using res b(7) by simp
  qed
qed


lemma run_ok_pre:
  assumes "finished e \<or> 0 \<le> idx e" and "run_ok lo e e'" and "flow e' = Normal"
  shows "finished e' \<or> 0 \<le> idx e'"
proof -
  have h: "handlers (req e') = handlers (req e)"
    and c: "finished e' \<or> index (req e') = index (req e)"
    using assms(2,3) unfolding run_ok_def by blast+
  show ?thesis
  proof (cases "finished e'")
    case True
    then show ?thesis by simp
  next
    case False
    then have "index (req e') = index (req e)" using c by simp
    then show ?thesis using assms(1) h by (simp add: finished_def n8_def idx_def)
  qed
qed

lemma run_ok_quiet:
  assumes "handlers (req e') = handlers (req e)" and "index (req e') = index (req e)"
    and "events e' = events e"
  shows "run_ok lo e e'"
  using assms by (simp add: run_ok_def finished_def n8_def idx_def)

lemma run_ok_entered:
  assumes "run_ok lo (emit (Invoked c) e) e'" and "\<forall>i. c \<noteq> SliceHandler i"
  shows "run_ok lo e e'"
proof -
  let ?e0 = "emit (Invoked c) e"
  have e0: "handlers (req ?e0) = handlers (req e)" "n8 ?e0 = n8 e" "idx ?e0 = idx e"
    "events ?e0 = events e @ [Invoked c]" "index (req ?e0) = index (req e)"
    "finished ?e0 = finished e"
    by (simp_all add: emit_def n8_def idx_def finished_def)
  have sc: "slice_calls (Invoked c # evs) = slice_calls evs" for evs
    using assms(2) by (cases c) simp_all
  have aa: "after_abort (Invoked c # evs) = after_abort evs" for evs by simp
  from assms(1) obtain evs where a:
    "handlers (req e') = handlers (req e)" "events e' = events e @ Invoked c # evs"
    "slice_calls (after_abort evs) = []" "sorted_wrt (<) (slice_calls evs)"
    "\<forall>i \<in> set (slice_calls evs). lo \<le> int i \<and> int i < n8 e"
    "finished e \<or> idx e < 0 \<longrightarrow> slice_calls evs = []"
    "flow e' = Normal \<longrightarrow> finished e' \<or>
       (index (req e') = index (req e) \<and> slice_calls evs = [] \<and> AbortCalled \<notin> set evs)"
    unfolding run_ok_def e0 by auto
  show ?thesis
    unfolding run_ok_def
    using a
    by (intro conjI exI[of _ "Invoked c # evs"]) (simp_all only: sc aa, simp_all)
qed

lemma slices_run:
  "RouterSlicesMode cfg \<Longrightarrow>
     run_ok (idx e) e (RouterSlicesNext_loop n cfg e)
     \<and> (flow (RouterSlicesNext_loop n cfg e) = Normal \<longrightarrow> finished (RouterSlicesNext_loop n cfg e))"
  "RouterSlicesMode cfg \<Longrightarrow> finished e \<or> 0 \<le> idx e \<Longrightarrow>
     run_ok (idx e + 1) e (Call_loop n cfg e)"
  "RouterSlicesMode cfg \<Longrightarrow> finished e \<or> 0 \<le> idx e \<Longrightarrow>
     run_ok (idx e + 1) e (Call n cfg e)"
  "RouterSlicesMode cfg \<Longrightarrow> finished e \<or> 0 \<le> idx e \<Longrightarrow>
     run_ok (idx e + 1) e (call_handler n cfg ss e)"
proof (induction n cfg e and n cfg e and n cfg e and n cfg ss e
    rule: RouterSlicesNext_loop_Call_loop_Call_call_handler.induct)
  case (1 cfg e)
  then show ?case by (simp add: run_ok_halt)
next
  case (2 n cfg e)
  let ?i = "sint (index (req e))" and ?hs = "handlers (req e)"
  have i: "?i = idx e" by (simp add: idx_def)
  have nn: "sint (word_of_nat (length ?hs) :: 8 word) = n8 e" by (simp add: n8_def)
  show ?case
  proof (cases "?i < sint (word_of_nat (length ?hs) :: 8 word)")
    case False
    then have "RouterSlicesNext_loop (Suc n) cfg e = e" by (simp add: Let_def)
    moreover have "finished e" using False by (simp add: finished_def i nn)
    ultimately show ?thesis by (simp add: run_ok_refl)
  next
    case c: True
    show ?thesis
    proof (cases "?i < 0 \<or> int (length ?hs) \<le> ?i")
      case True
      then have "RouterSlicesNext_loop (Suc n) cfg e
                   = e\<lparr>flow := Panicking (IndexOutOfRange ?i (length ?hs))\<rparr>"
        using c by (simp add: Let_def)
      then show ?thesis by (simp add: run_ok_halt)
    next
      case v: False
      let ?e0 = "emit (Invoked (SliceHandler (nat ?i))) e"
      let ?e1 = "call_handler n cfg (?hs ! nat ?i) ?e0"
      let ?e2 = "RouterSlicesNext_loop n cfg (index_inc ?e1)"
      have v1: "0 \<le> idx e" "idx e < n8 e" using c v by (simp_all add: i[symmetric] nn[symmetric])
      have pre0: "finished ?e0 \<or> 0 \<le> idx ?e0" using v1 by (simp add: idx_def emit_def)
      have h1: "run_ok (idx ?e0 + 1) ?e0 ?e1"
        using "2.IH"(1)[OF refl refl c v "2.prems" pre0] .
      have h1': "run_ok (idx e + 1) (emit (Invoked (SliceHandler (nat (idx e)))) e) ?e1"
        using h1 by (simp add: idx_def emit_def)
      have h2: "run_ok (idx (index_inc ?e1)) (index_inc ?e1) ?e2
                 \<and> (flow ?e2 = Normal \<longrightarrow> finished ?e2)"
        if "flow ?e1 = Normal"
        using "2.IH"(2)[OF refl refl c v refl _ "2.prems"] that by simp
      have res: "RouterSlicesNext_loop (Suc n) cfg e = (if flow ?e1 \<noteq> Normal then ?e1 else ?e2)"
        using c v by (simp add: Let_def)
      show ?thesis
        by (rule loop_invoke_ok[OF v1 h1' h2 res])
    qed
  qed
next
  case (3 cfg e)
  then show ?case by (simp add: run_ok_halt)
next
  case (4 n cfg e)
  show ?case
  proof (cases "steps (req e) < HandleOver")
    case False
    then show ?thesis by (simp add: run_ok_refl)
  next
    case lt: True
    show ?thesis
    proof (cases "router (req e)")
      case None
      then show ?thesis using lt by (simp add: run_ok_halt)
    next
      case (Some rt)
      define e1 where "e1 =
        (if steps (req e) = PreHandle then
           call_handler n cfg (PreHandle_m rt) (emit (Invoked RouterPreHandle) e)
         else if steps (req e) = Handle then
           call_handler n cfg (Handle_m rt) (emit (Invoked RouterHandle) e)
         else if steps (req e) = PostHandle then
           call_handler n cfg (PostHandle_m rt) (emit (Invoked RouterPostHandle) e)
         else e)"
      have pre0: "finished (emit ev e) \<or> 0 \<le> idx (emit ev e)" for ev
        using "4.prems"(2) by (simp add: finished_def n8_def idx_def emit_def)
      have i0: "idx (emit ev e) = idx e" for ev by (simp add: idx_def emit_def)
      have r1: "run_ok (idx e + 1) e e1"
      proof (cases "steps (req e) = PreHandle")
        case True
        have "run_ok (idx e + 1) (emit (Invoked RouterPreHandle) e) e1"
          using "4.IH"(1)[OF lt Some True "4.prems"(1) pre0] True by (simp add: e1_def i0)
        then show ?thesis by (rule run_ok_entered) simp
      next
        case np: False
        show ?thesis
        proof (cases "steps (req e) = Handle")
          case True
          have "run_ok (idx e + 1) (emit (Invoked RouterHandle) e) e1"
            using "4.IH"(2)[OF lt Some np True "4.prems"(1) pre0] np True
            by (simp add: e1_def i0)
          then show ?thesis by (rule run_ok_entered) simp
        next
          case nh: False
          show ?thesis
          proof (cases "steps (req e) = PostHandle")
            case True
            have "run_ok (idx e + 1) (emit (Invoked RouterPostHandle) e) e1"
              using "4.IH"(3)[OF lt Some np nh True "4.prems"(1) pre0] np nh True
              by (simp add: e1_def i0)
            then show ?thesis by (rule run_ok_entered) simp
          next
            case False
            then show ?thesis using np nh by (simp add: e1_def run_ok_refl)
          qed
        qed
      qed
      have res: "Call_loop (Suc n) cfg e =
              (if flow e1 \<noteq> Normal then e1 else Call_loop n cfg (e1\<lparr>req := next_step (req e1)\<rparr>))"
        using lt Some by (simp add: e1_def Let_def)
      show ?thesis
      proof (cases "flow e1 = Normal")
        case False
        then show ?thesis using r1 res by simp
      next
        case fl: True
        let ?e2 = "e1\<lparr>req := next_step (req e1)\<rparr>"
        have same: "handlers (req ?e2) = handlers (req e1)" "index (req ?e2) = index (req e1)"
          "events ?e2 = events e1" "flow ?e2 = Normal"
          using fl by (simp_all add: next_step_def)
        have q: "run_ok (idx e1 + 1) e1 ?e2" by (rule run_ok_quiet[OF same(1,2,3)])
        have pre1: "finished e1 \<or> 0 \<le> idx e1" by (rule run_ok_pre[OF "4.prems"(2) r1 fl])
        have pre2: "finished ?e2 \<or> 0 \<le> idx ?e2"
          using pre1 same(1,2) by (simp add: finished_def n8_def idx_def)
        have r2: "run_ok (idx ?e2 + 1) ?e2 (Call_loop n cfg ?e2)"
          using "4.IH"(4)[OF lt Some e1_def _ "4.prems"(1) pre2] fl by simp
        have r12: "run_ok (idx e1 + 1) e1 (Call_loop n cfg ?e2)"
          by (rule run_ok_seq[OF q same(4) r2]) (simp add: idx_def)
        have "run_ok (idx e + 1) e (Call_loop n cfg ?e2)"
          by (rule run_ok_seq[OF r1 fl r12]) (simp add: idx_def)
        then show ?thesis using res fl by simp
      qed
    qed
  qed
next
  case (5 n cfg e)
  show ?case
  proof (cases "router (req e)")
    case None
    then show ?thesis by (simp add: Call.simps run_ok_refl)
  next
    case (Some rt)
    let ?e1 = "Call_loop n cfg e"
    have r1: "run_ok (idx e + 1) e ?e1" by (rule "5.IH"[OF Some "5.prems"])
    show ?thesis
    proof (cases "flow ?e1 = Normal")
      case False
      then show ?thesis using r1 Some by (simp add: Call.simps Let_def)
    next
      case fl: True
      let ?e2 = "?e1\<lparr>req := (req ?e1)\<lparr>steps := PreHandle\<rparr>\<rparr>"
      have q: "run_ok (idx ?e1 + 1) ?e1 ?e2" by (rule run_ok_quiet) simp_all
      have "run_ok (idx e + 1) e ?e2"
        by (rule run_ok_seq[OF r1 fl q]) (simp add: idx_def)
      then show ?thesis using fl Some by (simp add: Call.simps Let_def)
    qed
  qed
next
  case (6 n cfg e)
  then show ?case by (simp add: run_ok_refl)
next
  case (7 n cfg s ss e)
  show ?case
  proof (cases "s = ReturnIfResponse \<and> GetResponse (req e) \<noteq> None")
    case True
    then show ?thesis by (simp add: run_ok_refl)
  next
    case nr: False
    define e1 where "e1 =
      (if s = CallRouterSlicesNext then RouterSlicesNext_loop n cfg (index_inc e)
       else if s = CallCall then Call n cfg e else request_call cfg s e)"
    have res: "call_handler n cfg (s # ss) e
                 = (if flow e1 \<noteq> Normal then e1 else call_handler n cfg ss e1)"
      using nr by (auto simp: e1_def Let_def)
    have a: "run_ok (idx e + 1) e e1"
    proof (cases "s = CallRouterSlicesNext")
      case True
      have l: "run_ok (idx (index_inc e)) (index_inc e) (RouterSlicesNext_loop n cfg (index_inc e))
         \<and> (flow (RouterSlicesNext_loop n cfg (index_inc e)) = Normal
              \<longrightarrow> finished (RouterSlicesNext_loop n cfg (index_inc e)))"
        using "7.IH"(1)[OF nr True "7.prems"(1)] .
      show ?thesis
        using run_ok_inc[OF "7.prems"(2) conjunct1[OF l] conjunct2[OF l]] True
        by (simp add: e1_def)
    next
      case ns: False
      show ?thesis
      proof (cases "s = CallCall")
        case True
        then show ?thesis
          using "7.IH"(2)[OF nr ns True "7.prems"] ns by (simp add: e1_def)
      next
        case False
        then show ?thesis
          using run_ok_request_call[OF "7.prems"(1) ns, of "idx e + 1" e] ns
          by (simp add: e1_def)
      qed
    qed
    show ?thesis
    proof (cases "flow e1 = Normal")
      case False
      then show ?thesis using a res by simp
    next
      case True
      have pre1: "finished e1 \<or> 0 \<le> idx e1" by (rule run_ok_pre[OF "7.prems"(2) a True])
      have b: "run_ok (idx e1 + 1) e1 (call_handler n cfg ss e1)"
        using "7.IH"(3)[OF nr e1_def _ "7.prems"(1) pre1] True by simp
      have "run_ok (idx e + 1) e (call_handler n cfg ss e1)"
        by (rule run_ok_seq[OF a True b]) (simp add: idx_def)
      then show ?thesis using res True by simp
    qed
  qed
qed


lemma sint8_of_nat: "j \<le> 127 \<Longrightarrow> sint (word_of_nat j :: 8 word) = int j"
  by (simp add: signed_of_nat signed_take_bit_int_eq_self)

lemma slice_limit_small: "len \<le> 127 \<Longrightarrow> slice_limit len = len"
  by (simp add: slice_limit_def sint8_of_nat)

lemma slice_limit_le: "slice_limit len \<le> len"
proof (cases "0 \<le> sint (word_of_nat len :: 8 word)")
  case False
  then show ?thesis by (simp add: slice_limit_def)
next
  case True
  then have nb: "\<not> bit (int len) 7" by (simp add: signed_of_nat)
  have "sint (word_of_nat len :: 8 word) = take_bit 7 (int len)"
    using signed_take_bit_eq_if_positive[OF nb] by (simp add: signed_of_nat)
  moreover have "take_bit 7 (int len) \<le> int len"
    by (simp add: take_bit_int_less_eq_self_iff)
  ultimately show ?thesis by (simp add: slice_limit_def)
qed

lemma slice_limit_127: "slice_limit len \<le> 127"
  using sint8_bounds(2)[of "word_of_nat len"] by (simp add: slice_limit_def)

lemma loop_prints:
  assumes "\<forall>h \<in> set (handlers (req e)). only_prints h" and "flow e = Normal"
    and "index (req e) = word_of_nat j" and "j \<le> slice_limit (length (handlers (req e)))"
    and "slice_limit (length (handlers (req e))) - j < n"
  shows "RouterSlicesNext_loop n cfg e =
           e\<lparr>events := events e @ concat (map (handler_events (handlers (req e)))
                                            [j ..< slice_limit (length (handlers (req e)))]),
             req := (req e)\<lparr>index := word_of_nat (slice_limit (length (handlers (req e))))\<rparr>\<rparr>"
  using assms
proof (induction n arbitrary: e j)
  case 0
  then show ?case by simp
next
  case (Suc n)
  let ?hs = "handlers (req e)"
  let ?k = "slice_limit (length ?hs)"
  have j127: "j \<le> 127" using Suc.prems(4) slice_limit_127[of "length ?hs"] by simp
  have si: "sint (index (req e)) = int j" using Suc.prems(3) j127 by (simp add: sint8_of_nat)
  show ?case
  proof (cases "j = ?k")
    case True
    have "\<not> int j < sint (word_of_nat (length ?hs) :: 8 word)"
      using True by (simp add: slice_limit_def)
    then have "RouterSlicesNext_loop (Suc n) cfg e = e"
      by (simp add: Let_def si)
    moreover have "e = e\<lparr>events := events e @ concat (map (handler_events ?hs) [j ..< ?k]),
             req := (req e)\<lparr>index := word_of_nat ?k\<rparr>\<rparr>"
      using True Suc.prems(3) by simp
    ultimately show ?thesis by simp
  next
    case False
    then have lt: "j < ?k" using Suc.prems(4) by simp
    then have c: "int j < sint (word_of_nat (length ?hs) :: 8 word)"
      by (simp add: slice_limit_def)
    have jl: "j < length ?hs" using lt slice_limit_le[of "length ?hs"] by simp
    have op: "only_prints (?hs ! j)" using Suc.prems(1) jl by simp
    let ?e0 = "emit (Invoked (SliceHandler j)) e"
    let ?e1 = "?e0\<lparr>events := events ?e0 @ map Printed (lines_of (?hs ! j))\<rparr>"
    have h: "call_handler n cfg (?hs ! j) ?e0 = ?e1"
      using call_handler_prints[OF op, of ?e0 n cfg] Suc.prems(2) by (simp add: emit_def)
    have f1: "flow ?e1 = Normal" using Suc.prems(2) by (simp add: emit_def)
    have step: "RouterSlicesNext_loop (Suc n) cfg e = RouterSlicesNext_loop n cfg (index_inc ?e1)"
      using c jl f1 by (simp add: Let_def si h del: call_handler.simps)
    have hs1: "handlers (req (index_inc ?e1)) = ?hs" by (simp add: index_inc_def emit_def)
    have ih: "RouterSlicesNext_loop n cfg (index_inc ?e1) =
           (index_inc ?e1)\<lparr>events := events (index_inc ?e1) @ concat (map (handler_events ?hs) [Suc j ..< ?k]),
             req := (req (index_inc ?e1))\<lparr>index := word_of_nat ?k\<rparr>\<rparr>"
      using Suc.IH[of "index_inc ?e1" "Suc j"] Suc.prems lt
      by (simp add: hs1) (simp add: index_inc_def emit_def)
    have "[j ..< ?k] = j # [Suc j ..< ?k]" using lt by (simp add: upt_conv_Cons)
    moreover have "handler_events ?hs j = Invoked (SliceHandler j) # map Printed (lines_of (?hs ! j))"
      by (simp add: handler_events_def)
    ultimately show ?thesis
      unfolding step ih by (simp add: index_inc_def emit_def)
  qed
qed


text \<open>
  C7. In slices mode, whatever the handlers of a route do and however far the run
  gets, the handlers are entered in the order of the list (with increasing indices),
  and no handler is entered after a handler has called \<^verbatim>\<open>Abort\<close>. Handlers that only
  print (and so never call \<^verbatim>\<open>RouterSlicesNext\<close>) are all entered, one after the other, as
  far as the 8-bit index reaches: the whole list when it has at most 127 handlers.
\<close>

theorem slices_dispatch_order:
  "(RouterSlicesMode cfg \<longrightarrow>
      sorted_wrt (<) (slice_calls (events (doMsgHandlerSlices n cfg mh wid (fresh r))))
      \<and> slice_calls (after_abort (events (doMsgHandlerSlices n cfg mh wid (fresh r)))) = [])
   \<and> (Apis (routerSlices mh) (id_m m) = Some hs \<and> (\<forall>h \<in> set hs. only_prints h)
        \<and> slice_limit (length hs) < n \<longrightarrow>
      flow (doMsgHandlerSlices n cfg mh wid (fresh (NewRequest c m))) = Normal
      \<and> events (doMsgHandlerSlices n cfg mh wid (fresh (NewRequest c m)))
          = concat (map (handler_events hs) [0 ..< slice_limit (length hs)]))
   \<and> (length hs \<le> 127 \<longrightarrow> slice_limit (length hs) = length hs)"
proof (intro conjI impI)
  assume m: "RouterSlicesMode cfg"
  let ?res = "doMsgHandlerSlices n cfg mh wid (fresh r)"
  have "sorted_wrt (<) (slice_calls (events ?res)) \<and> slice_calls (after_abort (events ?res)) = []"
  proof (cases "Apis (routerSlices mh) (GetMsgID r)")
    case None
    then show ?thesis
      by (simp add: doMsgHandlerSlices_def doMsgHandlerSlices_body_def GetHandlers_def fresh_def
          recover_def emit_def Let_def)
  next
    case (Some hs')
    let ?e0 = "index_inc ((fresh r)\<lparr>req := BindRouterSlices hs' (req (fresh r))\<rparr>)"
    let ?e1 = "RouterSlicesNext_loop n cfg ?e0"
    have b: "doMsgHandlerSlices_body n cfg mh (fresh r) = ?e1"
      using Some
      by (simp add: doMsgHandlerSlices_body_def GetHandlers_def fresh_def RouterSlicesNext_def Let_def)
    have "run_ok (idx ?e0) ?e0 ?e1" using slices_run(1)[OF m, of ?e0 n] by simp
    then obtain evs where e: "events ?e1 = evs" "slice_calls (after_abort evs) = []"
      "sorted_wrt (<) (slice_calls evs)"
      unfolding run_ok_def by (auto simp: index_inc_def fresh_def)
    have "events ?res = evs \<or> (\<exists>p. events ?res = evs @ [ErrorF_panic ''doMsgHandler'' wid p])"
      using e(1) by (auto simp: doMsgHandlerSlices_def b recover_def emit_def split: flow.splits)
    then show ?thesis
      using e(2,3) by (auto simp: after_abort_append)
  qed
  then show "sorted_wrt (<) (slice_calls (events ?res))"
    and "slice_calls (after_abort (events ?res)) = []" by simp_all
next
  assume a: "Apis (routerSlices mh) (id_m m) = Some hs \<and> (\<forall>h \<in> set hs. only_prints h)
        \<and> slice_limit (length hs) < n"
  let ?e0 = "index_inc ((fresh (NewRequest c m))\<lparr>req := BindRouterSlices hs (req (fresh (NewRequest c m)))\<rparr>)"
  have b: "doMsgHandlerSlices_body n cfg mh (fresh (NewRequest c m)) = RouterSlicesNext_loop n cfg ?e0"
    using a
    by (simp add: doMsgHandlerSlices_body_def GetHandlers_def GetMsgID_def fresh_def NewRequest_def
        RouterSlicesNext_def Let_def)
  have f: "handlers (req ?e0) = hs" "flow ?e0 = Normal" "index (req ?e0) = word_of_nat 0"
    "events ?e0 = []"
    by (simp_all add: index_inc_def fresh_def NewRequest_def BindRouterSlices_def)
  have l: "RouterSlicesNext_loop n cfg ?e0 =
           ?e0\<lparr>events := events ?e0 @ concat (map (handler_events (handlers (req ?e0)))
                                            [0 ..< slice_limit (length (handlers (req ?e0)))]),
             req := (req ?e0)\<lparr>index := word_of_nat (slice_limit (length (handlers (req ?e0))))\<rparr>\<rparr>"
    using a by (intro loop_prints) (simp_all add: f)
  have r: "doMsgHandlerSlices n cfg mh wid (fresh (NewRequest c m)) = RouterSlicesNext_loop n cfg ?e0"
    unfolding doMsgHandlerSlices_def b l using f(2) by (simp add: recover_def)
  show "flow (doMsgHandlerSlices n cfg mh wid (fresh (NewRequest c m))) = Normal"
    unfolding r l using f(2) by simp
  show "events (doMsgHandlerSlices n cfg mh wid (fresh (NewRequest c m)))
          = concat (map (handler_events hs) [0 ..< slice_limit (length hs)])"
    unfolding r l using f(1,4) by simp
next
  assume "length hs \<le> 127"
  then show "slice_limit (length hs) = length hs" by (rule slice_limit_small)
qed


text \<open>
  Scenario 2: \<^verbatim>\<open>auth\<close> runs and \<^verbatim>\<open>helloHandle\<close> does not. With two handlers that only
  print, both run.
\<close>

theorem slices_dispatch_order_witness:
  "RouterSlicesMode cfg_hash4
   \<and> GetHandlers 1 (routerSlices mh_auth) = ([auth, helloHandle], True)
   \<and> events (doMsgHandlerSlices 3 cfg_hash4 mh_auth 1 (fresh request1))
       = [Invoked (SliceHandler 0), Printed ''request use ...'', AbortCalled]
   \<and> flow (doMsgHandlerSlices 3 cfg_hash4 mh_auth 1 (fresh request1)) = Normal
   \<and> sorted_wrt (<) (slice_calls (events (doMsgHandlerSlices 3 cfg_hash4 mh_auth 1 (fresh request1))))
   \<and> slice_calls (after_abort (events (doMsgHandlerSlices 3 cfg_hash4 mh_auth 1 (fresh request1)))) = []
   \<and> Apis (routerSlices mh_two) 1 = Some [helloHandle, byeHandle]
   \<and> flow (doMsgHandlerSlices 3 cfg_hash4 mh_two 1 (fresh request1)) = Normal
   \<and> events (doMsgHandlerSlices 3 cfg_hash4 mh_two 1 (fresh request1))
       = [Invoked (SliceHandler 0), Printed ''receive from client'',
          Invoked (SliceHandler 1), Printed ''bye'']"
proof -
  let ?m = "\<lparr>id_m = 1, data_m = []\<rparr> :: Message" and ?c = "\<lparr>connID = 1, workerID = 1\<rparr>"
  have r1: "request1 = NewRequest ?c ?m" by (simp add: request1_def)
  have m: "RouterSlicesMode cfg_hash4" by (simp add: cfg_hash4_def)
  have g: "GetHandlers 1 (routerSlices mh_auth) = ([auth, helloHandle], True)"
    by (simp add: mh_auth_def MsgHandle_Use_def AddRouterSlices_def AddHandler_def Use_def
        mh_hash4_def newMsgHandle_def NewRouterSlices_def Apis_at_def GetHandlers_def Let_def)
  have ev: "events (doMsgHandlerSlices 3 cfg_hash4 mh_auth 1 (fresh request1))
       = [Invoked (SliceHandler 0), Printed ''request use ...'', AbortCalled]"
    and fl: "flow (doMsgHandlerSlices 3 cfg_hash4 mh_auth 1 (fresh request1)) = Normal"
    using g
    by (simp_all add: doMsgHandlerSlices_def doMsgHandlerSlices_body_def recover_def GetMsgID_def
        request1_def NewRequest_def fresh_def BindRouterSlices_def RouterSlicesNext_def
        index_inc_def emit_def Abort_def auth_def helloHandle_def cfg_hash4_def Let_def
        eval_nat_numeral)
  have a: "Apis (routerSlices mh_two) (id_m ?m) = Some [helloHandle, byeHandle]"
    by (simp add: mh_two_def AddRouterSlices_def AddHandler_def
        mh_hash4_def newMsgHandle_def NewRouterSlices_def Apis_at_def Let_def)
  have op: "\<forall>h \<in> set [helloHandle, byeHandle]. only_prints h"
    by (simp add: only_prints_def helloHandle_def byeHandle_def)
  have sl: "slice_limit (length [helloHandle, byeHandle]) = 2"
    by (simp add: slice_limit_def)
  have ce: "concat (map (handler_events [helloHandle, byeHandle]) [0 ..< 2])
              = [Invoked (SliceHandler 0), Printed ''receive from client'',
                 Invoked (SliceHandler 1), Printed ''bye'']"
    by (simp add: handler_events_def helloHandle_def byeHandle_def upt_rec[of 0] upt_rec[of 1]
        eval_nat_numeral)
  have pre: "Apis (routerSlices mh_two) (id_m ?m) = Some [helloHandle, byeHandle]
      \<and> (\<forall>h \<in> set [helloHandle, byeHandle]. only_prints h)
      \<and> slice_limit (length [helloHandle, byeHandle]) < 3"
    using a op by (simp only: sl) simp
  have two: "flow (doMsgHandlerSlices 3 cfg_hash4 mh_two 1 (fresh (NewRequest ?c ?m))) = Normal
      \<and> events (doMsgHandlerSlices 3 cfg_hash4 mh_two 1 (fresh (NewRequest ?c ?m)))
          = concat (map (handler_events [helloHandle, byeHandle])
                      [0 ..< slice_limit (length [helloHandle, byeHandle])])"
    using slices_dispatch_order[of cfg_hash4 3 mh_two 1 request1 ?m "[helloHandle, byeHandle]" ?c]
      pre by blast
  have one: "sorted_wrt (<) (slice_calls (events (doMsgHandlerSlices 3 cfg_hash4 mh_auth 1 (fresh request1))))
      \<and> slice_calls (after_abort (events (doMsgHandlerSlices 3 cfg_hash4 mh_auth 1 (fresh request1)))) = []"
    using slices_dispatch_order[of cfg_hash4 3 mh_auth 1 request1 ?m "[]" ?c] m by blast
  show ?thesis
    using m g ev fl one two a unfolding r1 sl ce by simp
qed

section \<open>Worker ownership in Bind mode\<close>




lemma finite_pool: "finite (pool cfg)"
  by (simp add: pool_def)














end
